theory Spec2Isabelle
  imports Main "HOL-Library.Word" "HOL-Library.AList" "HOL-Library.Monad_Syntax"
begin

section \<open>The Cogl matrix stack (cogl/cogl/cogl-matrix-stack.c)\<close>

subsection \<open>Data model\<close>

text \<open>
  A non-NULL \<^verbatim>\<open>CoglMatrixEntry *\<close> is an address; a pointer that may be NULL is an
  \<open>addr option\<close>.  The heap is the set of live magazine chunks, an association list
  from addresses to entries, read with \<open>map_of\<close>; reading through a pointer that is not
  live is a crash of the model (\<open>None\<close>).

  Floating point numbers (\<open>'f\<close>), \<^verbatim>\<open>graphene_euler_t\<close> (\<open>'e\<close>) and
  \<^verbatim>\<open>graphene_matrix_t\<close> (\<open>'m\<close>) are type parameters: the graphene library is not
  part of the repository, and its functions are taken as parameters below.
\<close>

type_synonym addr = nat

type_synonym 'f point3d = "'f \<times> 'f \<times> 'f"

type_synonym 'f vec3 = "'f \<times> 'f \<times> 'f"

text \<open>
  \<^verbatim>\<open>CoglMatrixOp\<close> together with the payload of the entry structs that extend
  \<^verbatim>\<open>CoglMatrixEntry\<close> (\<^verbatim>\<open>CoglMatrixEntryTranslate\<close>, ..., \<^verbatim>\<open>CoglMatrixEntrySave\<close> with
  its fields \<^verbatim>\<open>cache\<close> and \<^verbatim>\<open>cache_valid\<close>).
\<close>

datatype ('f, 'e, 'm) matrix_op =
    OP_LOAD_IDENTITY
  | OP_TRANSLATE "'f point3d"
  | OP_ROTATE 'f "'f vec3"
  | OP_ROTATE_EULER 'e
  | OP_SCALE 'f 'f 'f
  | OP_MULTIPLY 'm
  | OP_LOAD 'm
  | OP_SAVE 'm bool

text \<open>
  Modelled from the spec: the struct \<^verbatim>\<open>CoglMatrixEntry\<close> is declared in
  cogl-matrix-stack-private.h, which is not among the sources; the spec gives a node an
  operation kind, a reference count and a parent link.  The count is taken as an
  unsigned 32-bit integer, so that \<^verbatim>\<open>--entry->ref_count <= 0\<close> holds exactly when the
  decremented count is zero.
\<close>

record ('f, 'e, 'm) entry =
  parent :: "addr option"
  op :: "('f, 'e, 'm) matrix_op"
  ref_count :: "32 word"

type_synonym ('f, 'e, 'm) heap = "(addr \<times> ('f, 'e, 'm) entry) list"

text \<open>
  \<^verbatim>\<open>CoglMatrixStack\<close>: the context is reduced to the field the stack code reads, the
  address of \<^verbatim>\<open>ctx->identity_entry\<close>.
\<close>

record cogl_context =
  identity_entry :: addr

record matrix_stack =
  ctx :: cogl_context
  last_entry :: "addr option"

text \<open>
  Everything the file calls but does not define: the graphene functions it uses, which
  floats are NaNs, the magazine allocator (which returns the address of a chunk that is
  not live), the contents of a matrix field that was never written, and whether the file
  is compiled with \<^verbatim>\<open>COGL_ENABLE_DEBUG\<close>.
\<close>

record ('f, 'e, 'm) env =
  graphene_matrix_init_identity :: 'm
  graphene_matrix_translate :: "'m \<Rightarrow> 'f point3d \<Rightarrow> 'm"
  graphene_matrix_rotate :: "'m \<Rightarrow> 'f \<Rightarrow> 'f vec3 \<Rightarrow> 'm"
  graphene_matrix_rotate_euler :: "'m \<Rightarrow> 'e \<Rightarrow> 'm"
  graphene_matrix_scale :: "'m \<Rightarrow> 'f \<Rightarrow> 'f \<Rightarrow> 'f \<Rightarrow> 'm"
  graphene_matrix_multiply :: "'m \<Rightarrow> 'm \<Rightarrow> 'm"
  graphene_matrix_inverse :: "'m \<Rightarrow> 'm option"
  graphene_matrix_equal :: "'m \<Rightarrow> 'm \<Rightarrow> bool"
  graphene_point3d_equal :: "'f point3d \<Rightarrow> 'f point3d \<Rightarrow> bool"
  graphene_vec3_equal :: "'f vec3 \<Rightarrow> 'f vec3 \<Rightarrow> bool"
  graphene_euler_equal :: "'e \<Rightarrow> 'e \<Rightarrow> bool"
  float_is_nan :: "'f \<Rightarrow> bool"
  magazine_chunk_alloc :: "('f, 'e, 'm) heap \<Rightarrow> addr"
  uninitialized_matrix :: 'm
  cogl_enable_debug :: bool

text \<open>
  The operator \<^verbatim>\<open>==\<close> of C on two floats (\<^verbatim>\<open>a != b\<close> is its negation): the type
  \<open>'f\<close> holds the values a float takes, the two zeros being one value, and two floats
  compare equal exactly when they are the same value and not a NaN.  There is no
  tolerance.
\<close>

definition float_eq :: "('f, 'e, 'm) env \<Rightarrow> 'f \<Rightarrow> 'f \<Rightarrow> bool" where
  "float_eq E a b = (a = b \<and> \<not> float_is_nan E a)"

fun is_save :: "('f, 'e, 'm) matrix_op \<Rightarrow> bool" where
  "is_save (OP_SAVE c v) = True"
| "is_save _ = False"

fun is_translate :: "('f, 'e, 'm) matrix_op \<Rightarrow> bool" where
  "is_translate (OP_TRANSLATE p) = True"
| "is_translate _ = False"

subsection \<open>Allocation and reference counting\<close>

text \<open>
  \<^verbatim>\<open>_cogl_matrix_entry_new\<close>.  The source leaves \<^verbatim>\<open>entry->parent\<close> unset; the
  placeholder \<open>None\<close> is overwritten by \<^verbatim>\<open>_cogl_matrix_stack_push_entry\<close> before it
  is read.  The callers write the payload of the new entry right after the call; the
  model passes it inside the operation.
\<close>

definition cogl_matrix_entry_new ::
  "('f, 'e, 'm) env \<Rightarrow> ('f, 'e, 'm) heap \<Rightarrow> ('f, 'e, 'm) matrix_op \<Rightarrow>
   addr \<times> ('f, 'e, 'm) heap" where
  "cogl_matrix_entry_new E h operation =
     (let entry = magazine_chunk_alloc E h
      in (entry, AList.update entry \<lparr>parent = None, op = operation, ref_count = 1\<rparr> h))"

definition cogl_matrix_stack_push_entry ::
  "('f, 'e, 'm) heap \<Rightarrow> matrix_stack \<Rightarrow> addr \<Rightarrow> ('f, 'e, 'm) heap \<times> matrix_stack" where
  "cogl_matrix_stack_push_entry h stack entry =
     (AList.map_entry entry (\<lambda>e. e\<lparr>parent := last_entry stack\<rparr>) h,
      stack\<lparr>last_entry := Some entry\<rparr>)"

definition cogl_matrix_stack_push_operation ::
  "('f, 'e, 'm) env \<Rightarrow> ('f, 'e, 'm) heap \<Rightarrow> matrix_stack \<Rightarrow> ('f, 'e, 'm) matrix_op \<Rightarrow>
   ('f, 'e, 'm) heap \<times> matrix_stack" where
  "cogl_matrix_stack_push_operation E h stack operation =
     (case cogl_matrix_entry_new E h operation of
        (entry, h1) \<Rightarrow> cogl_matrix_stack_push_entry h1 stack entry)"

definition cogl_matrix_entry_ref ::
  "('f, 'e, 'm) heap \<Rightarrow> addr option \<Rightarrow> ('f, 'e, 'm) heap option" where
  "cogl_matrix_entry_ref h entry =
     (case entry of
        None \<Rightarrow> Some h
      | Some a \<Rightarrow>
          (case map_of h a of
             None \<Rightarrow> None
           | Some e \<Rightarrow> Some (AList.update a (e\<lparr>ref_count := ref_count e + 1\<rparr>) h)))"

text \<open>
  \<^verbatim>\<open>cogl_matrix_entry_unref\<close>: the loop frees the entry and goes on with its parent
  while the decremented count is zero.  A freed chunk leaves the heap, so the loop
  terminates on every heap.
\<close>

function cogl_matrix_entry_unref ::
  "('f, 'e, 'm) heap \<Rightarrow> addr option \<Rightarrow> ('f, 'e, 'm) heap option" where
  "cogl_matrix_entry_unref h None = Some h"
| "cogl_matrix_entry_unref h (Some a) =
     (case map_of h a of
        None \<Rightarrow> None
      | Some e \<Rightarrow>
          if ref_count e - 1 \<le> 0
          then cogl_matrix_entry_unref (AList.delete a h) (parent e)
          else Some (AList.update a (e\<lparr>ref_count := ref_count e - 1\<rparr>) h))"
  by pat_completeness auto

lemma length_delete_less:
  "map_of h a = Some e \<Longrightarrow> length (AList.delete a h) < length h"
proof (induction h)
  case Nil
  then show ?case by simp
next
  case (Cons p h)
  have le: "length (AList.delete a h) \<le> length h"
    by (rule length_delete_le)
  show ?case
  proof (cases "fst p = a")
    case True
    then show ?thesis using le by (cases p) simp
  next
    case False
    then show ?thesis using Cons by (cases p) (auto split: if_splits)
  qed
qed

termination cogl_matrix_entry_unref
  by (relation "measure (\<lambda>(h, p). length h)") (auto simp: length_delete_less)

subsection \<open>The composite evaluator\<close>

text \<open>
  The code after the label \<^verbatim>\<open>applied\<close> of \<^verbatim>\<open>cogl_matrix_entry_get\<close>: the pointer the
  function returns, given as the matrix it points to (\<open>None\<close> for NULL).  Without
  \<^verbatim>\<open>COGL_ENABLE_DEBUG\<close> the switch reads \<^verbatim>\<open>entry->op\<close> when the depth is 0, which
  crashes for a NULL entry.
\<close>

definition entry_get_applied ::
  "('f, 'e, 'm) env \<Rightarrow> ('f, 'e, 'm) heap \<Rightarrow> addr option \<Rightarrow> addr option \<Rightarrow> nat \<Rightarrow>
   'm option option" where
  "entry_get_applied E h entry current depth =
     (if cogl_enable_debug E \<and> current = None then Some None
      else if depth = 0 then
        (case entry of
           None \<Rightarrow> None
         | Some a \<Rightarrow>
             (case map_of h a of
                None \<Rightarrow> None
              | Some e \<Rightarrow>
                  (case op e of
                     OP_LOAD m \<Rightarrow> Some (Some m)
                   | OP_SAVE c v \<Rightarrow> Some (Some c)
                   | _ \<Rightarrow> Some None)))
      else Some None)"

text \<open>
  \<^verbatim>\<open>cogl_matrix_entry_get\<close> from the head of its loop, with the locals \<^verbatim>\<open>current\<close>,
  \<^verbatim>\<open>depth\<close> and the matrix written so far.  The result is the heap (a Save entry's
  cache may have been filled), the output matrix and the returned pointer.  The
  recursive call for a Save entry writes into \<^verbatim>\<open>save->cache\<close>; the model takes the
  callee's output matrix and stores it with \<^verbatim>\<open>cache_valid = TRUE\<close>.  \<open>None\<close> is a
  crash or a walk that never ends.
\<close>

partial_function (option) entry_get_from ::
  "('f, 'e, 'm) env \<Rightarrow> ('f, 'e, 'm) heap \<Rightarrow> addr option \<Rightarrow> addr option \<Rightarrow> nat \<Rightarrow> 'm \<Rightarrow>
   (('f, 'e, 'm) heap \<times> 'm \<times> 'm option) option" where
  "entry_get_from E h entry current depth matrix =
     (case current of
        None \<Rightarrow>
          map_option (\<lambda>r. (h, matrix, r)) (entry_get_applied E h entry current depth)
      | Some c \<Rightarrow>
          (case map_of h c of
             None \<Rightarrow> None
           | Some e \<Rightarrow>
               (case op e of
                  OP_TRANSLATE p \<Rightarrow>
                    entry_get_from E h entry (parent e) (depth + 1)
                      (graphene_matrix_translate E matrix p)
                | OP_ROTATE angle axis \<Rightarrow>
                    entry_get_from E h entry (parent e) (depth + 1)
                      (graphene_matrix_rotate E matrix angle axis)
                | OP_ROTATE_EULER euler \<Rightarrow>
                    entry_get_from E h entry (parent e) (depth + 1)
                      (graphene_matrix_rotate_euler E matrix euler)
                | OP_SCALE x y z \<Rightarrow>
                    entry_get_from E h entry (parent e) (depth + 1)
                      (graphene_matrix_scale E matrix x y z)
                | OP_MULTIPLY m \<Rightarrow>
                    entry_get_from E h entry (parent e) (depth + 1)
                      (graphene_matrix_multiply E matrix m)
                | OP_LOAD_IDENTITY \<Rightarrow>
                    map_option (\<lambda>r. (h, matrix, r)) (entry_get_applied E h entry current depth)
                | OP_LOAD m \<Rightarrow>
                    map_option (\<lambda>r. (h, graphene_matrix_multiply E matrix m, r))
                      (entry_get_applied E h entry current depth)
                | OP_SAVE cache cache_valid \<Rightarrow>
                    if \<not> cache_valid then
                      Option.bind
                        (entry_get_from E h (parent e) (parent e) 0
                           (graphene_matrix_init_identity E))
                        (\<lambda>(h1, cache1, r1).
                           (case AList.update c (e\<lparr>op := OP_SAVE cache1 True\<rparr>) h1 of h2 \<Rightarrow>
                              map_option
                                (\<lambda>r. (h2, graphene_matrix_multiply E matrix cache1, r))
                                (entry_get_applied E h2 entry current depth)))
                    else
                      map_option (\<lambda>r. (h, graphene_matrix_multiply E matrix cache, r))
                        (entry_get_applied E h entry current depth))))"

definition cogl_matrix_entry_get ::
  "('f, 'e, 'm) env \<Rightarrow> ('f, 'e, 'm) heap \<Rightarrow> addr option \<Rightarrow>
   (('f, 'e, 'm) heap \<times> 'm \<times> 'm option) option" where
  "cogl_matrix_entry_get E h entry =
     entry_get_from E h entry entry 0 (graphene_matrix_init_identity E)"

definition cogl_matrix_stack_get ::
  "('f, 'e, 'm) env \<Rightarrow> ('f, 'e, 'm) heap \<Rightarrow> matrix_stack \<Rightarrow>
   (('f, 'e, 'm) heap \<times> 'm \<times> 'm option) option" where
  "cogl_matrix_stack_get E h stack = cogl_matrix_entry_get E h (last_entry stack)"

subsection \<open>Stack operations\<close>

text \<open>
  The loop of \<^verbatim>\<open>_cogl_matrix_stack_push_replacement_entry\<close>: from the old top up to the
  first entry that is a Save or has no parent.
\<close>

partial_function (option) push_replacement_entry_loop ::
  "('f, 'e, 'm) heap \<Rightarrow> addr option \<Rightarrow> addr option" where
  "push_replacement_entry_loop h new_top =
     (case new_top of
        None \<Rightarrow> None
      | Some a \<Rightarrow>
          (case map_of h a of
             None \<Rightarrow> None
           | Some e \<Rightarrow>
               if \<not> is_save (op e) \<and> parent e \<noteq> None
               then push_replacement_entry_loop h (parent e)
               else Some a))"

definition cogl_matrix_stack_push_replacement_entry ::
  "('f, 'e, 'm) env \<Rightarrow> ('f, 'e, 'm) heap \<Rightarrow> matrix_stack \<Rightarrow> ('f, 'e, 'm) matrix_op \<Rightarrow>
   (('f, 'e, 'm) heap \<times> matrix_stack) option" where
  "cogl_matrix_stack_push_replacement_entry E h stack operation =
     (case last_entry stack of old_top \<Rightarrow>
        Option.bind (push_replacement_entry_loop h old_top) (\<lambda>new_top.
        Option.bind (cogl_matrix_entry_ref h (Some new_top)) (\<lambda>h1.
        Option.bind (cogl_matrix_entry_unref h1 old_top) (\<lambda>h2.
          Some (cogl_matrix_stack_push_operation E h2
                  (stack\<lparr>last_entry := Some new_top\<rparr>) operation)))))"

definition cogl_matrix_entry_identity_init ::
  "('f, 'e, 'm) heap \<Rightarrow> addr \<Rightarrow> ('f, 'e, 'm) heap" where
  "cogl_matrix_entry_identity_init h entry =
     AList.update entry \<lparr>parent = None, op = OP_LOAD_IDENTITY, ref_count = 1\<rparr> h"

definition cogl_matrix_stack_load_identity ::
  "('f, 'e, 'm) env \<Rightarrow> ('f, 'e, 'm) heap \<Rightarrow> matrix_stack \<Rightarrow>
   (('f, 'e, 'm) heap \<times> matrix_stack) option" where
  "cogl_matrix_stack_load_identity E h stack =
     cogl_matrix_stack_push_replacement_entry E h stack OP_LOAD_IDENTITY"

definition cogl_matrix_stack_translate ::
  "('f, 'e, 'm) env \<Rightarrow> ('f, 'e, 'm) heap \<Rightarrow> matrix_stack \<Rightarrow> 'f \<Rightarrow> 'f \<Rightarrow> 'f \<Rightarrow>
   ('f, 'e, 'm) heap \<times> matrix_stack" where
  "cogl_matrix_stack_translate E h stack x y z =
     cogl_matrix_stack_push_operation E h stack (OP_TRANSLATE (x, y, z))"

definition cogl_matrix_stack_rotate ::
  "('f, 'e, 'm) env \<Rightarrow> ('f, 'e, 'm) heap \<Rightarrow> matrix_stack \<Rightarrow> 'f \<Rightarrow> 'f \<Rightarrow> 'f \<Rightarrow> 'f \<Rightarrow>
   ('f, 'e, 'm) heap \<times> matrix_stack" where
  "cogl_matrix_stack_rotate E h stack angle x y z =
     cogl_matrix_stack_push_operation E h stack (OP_ROTATE angle (x, y, z))"

definition cogl_matrix_stack_rotate_euler ::
  "('f, 'e, 'm) env \<Rightarrow> ('f, 'e, 'm) heap \<Rightarrow> matrix_stack \<Rightarrow> 'e \<Rightarrow>
   ('f, 'e, 'm) heap \<times> matrix_stack" where
  "cogl_matrix_stack_rotate_euler E h stack euler =
     cogl_matrix_stack_push_operation E h stack (OP_ROTATE_EULER euler)"

definition cogl_matrix_stack_scale ::
  "('f, 'e, 'm) env \<Rightarrow> ('f, 'e, 'm) heap \<Rightarrow> matrix_stack \<Rightarrow> 'f \<Rightarrow> 'f \<Rightarrow> 'f \<Rightarrow>
   ('f, 'e, 'm) heap \<times> matrix_stack" where
  "cogl_matrix_stack_scale E h stack x y z =
     cogl_matrix_stack_push_operation E h stack (OP_SCALE x y z)"

definition cogl_matrix_stack_multiply ::
  "('f, 'e, 'm) env \<Rightarrow> ('f, 'e, 'm) heap \<Rightarrow> matrix_stack \<Rightarrow> 'm \<Rightarrow>
   ('f, 'e, 'm) heap \<times> matrix_stack" where
  "cogl_matrix_stack_multiply E h stack matrix =
     cogl_matrix_stack_push_operation E h stack (OP_MULTIPLY matrix)"

definition cogl_matrix_stack_set ::
  "('f, 'e, 'm) env \<Rightarrow> ('f, 'e, 'm) heap \<Rightarrow> matrix_stack \<Rightarrow> 'm \<Rightarrow>
   (('f, 'e, 'm) heap \<times> matrix_stack) option" where
  "cogl_matrix_stack_set E h stack matrix =
     cogl_matrix_stack_push_replacement_entry E h stack (OP_LOAD matrix)"

text \<open>
  \<^verbatim>\<open>cogl_matrix_stack_push\<close>: a Save entry with \<^verbatim>\<open>cache_valid = FALSE\<close>; its cache is
  not written.
\<close>

definition cogl_matrix_stack_push ::
  "('f, 'e, 'm) env \<Rightarrow> ('f, 'e, 'm) heap \<Rightarrow> matrix_stack \<Rightarrow>
   ('f, 'e, 'm) heap \<times> matrix_stack" where
  "cogl_matrix_stack_push E h stack =
     cogl_matrix_stack_push_operation E h stack (OP_SAVE (uninitialized_matrix E) False)"

text \<open>
  The loop of \<^verbatim>\<open>cogl_matrix_stack_pop\<close>: from the old top up to the first Save entry;
  the source does not check for NULL, so leaving the chain is a crash.
\<close>

partial_function (option) pop_loop ::
  "('f, 'e, 'm) heap \<Rightarrow> addr option \<Rightarrow> addr option" where
  "pop_loop h new_top =
     (case new_top of
        None \<Rightarrow> None
      | Some a \<Rightarrow>
          (case map_of h a of
             None \<Rightarrow> None
           | Some e \<Rightarrow> if \<not> is_save (op e) then pop_loop h (parent e) else Some a))"

definition cogl_matrix_stack_pop ::
  "('f, 'e, 'm) heap \<Rightarrow> matrix_stack \<Rightarrow> (('f, 'e, 'm) heap \<times> matrix_stack) option" where
  "cogl_matrix_stack_pop h stack =
     (case last_entry stack of
        None \<Rightarrow> Some (h, stack)
      | Some old_top \<Rightarrow>
          Option.bind (pop_loop h (Some old_top)) (\<lambda>save.
          Option.bind (map_of h save) (\<lambda>e.
          (case parent e of new_top \<Rightarrow>
             Option.bind (cogl_matrix_entry_ref h new_top) (\<lambda>h1.
             Option.bind (cogl_matrix_entry_unref h1 (Some old_top)) (\<lambda>h2.
               Some (h2, stack\<lparr>last_entry := new_top\<rparr>)))))))"

text \<open>
  \<^verbatim>\<open>cogl_matrix_stack_get_inverse\<close>: the boolean result and the output matrix of
  \<^verbatim>\<open>graphene_matrix_inverse\<close> are one \<open>'m option\<close>, \<open>None\<close> for FALSE.
\<close>

definition cogl_matrix_stack_get_inverse ::
  "('f, 'e, 'm) env \<Rightarrow> ('f, 'e, 'm) heap \<Rightarrow> matrix_stack \<Rightarrow>
   (('f, 'e, 'm) heap \<times> 'm option) option" where
  "cogl_matrix_stack_get_inverse E h stack =
     Option.bind (cogl_matrix_stack_get E h stack) (\<lambda>(h1, matrix, internal).
       (case internal of
          Some i \<Rightarrow> Some (h1, graphene_matrix_inverse E i)
        | None \<Rightarrow> Some (h1, graphene_matrix_inverse E matrix)))"

definition cogl_matrix_stack_get_entry :: "matrix_stack \<Rightarrow> addr option" where
  "cogl_matrix_stack_get_entry stack = last_entry stack"

definition cogl_matrix_stack_new ::
  "('f, 'e, 'm) heap \<Rightarrow> cogl_context \<Rightarrow> (('f, 'e, 'm) heap \<times> matrix_stack) option" where
  "cogl_matrix_stack_new h c =
     Option.bind (cogl_matrix_entry_ref h (Some (identity_entry c))) (\<lambda>h1.
       Some (cogl_matrix_stack_push_entry h1 \<lparr>ctx = c, last_entry = None\<rparr> (identity_entry c)))"

subsection \<open>Queries on entries\<close>

text \<open>
  \<^verbatim>\<open>_cogl_matrix_entry_skip_saves\<close> reads \<^verbatim>\<open>entry->op\<close> without a NULL check: a Save
  entry with no parent is a crash.
\<close>

partial_function (option) cogl_matrix_entry_skip_saves ::
  "('f, 'e, 'm) heap \<Rightarrow> addr \<Rightarrow> addr option" where
  "cogl_matrix_entry_skip_saves h entry =
     (case map_of h entry of
        None \<Rightarrow> None
      | Some e \<Rightarrow>
          if is_save (op e)
          then (case parent e of None \<Rightarrow> None | Some p \<Rightarrow> cogl_matrix_entry_skip_saves h p)
          else Some entry)"

definition cogl_matrix_entry_is_identity ::
  "('f, 'e, 'm) heap \<Rightarrow> addr option \<Rightarrow> bool option" where
  "cogl_matrix_entry_is_identity h entry =
     (case entry of
        None \<Rightarrow> Some False
      | Some a \<Rightarrow> map_option (\<lambda>e. op e = OP_LOAD_IDENTITY) (map_of h a))"

text \<open>
  \<^verbatim>\<open>cogl_matrix_entry_equal\<close>.  The test \<^verbatim>\<open>entry0->op != entry1->op\<close> compares the
  kinds; it is the last branch of each inner case.  The Save case of the switch only
  warns, and the loop goes on with the parents.
\<close>

partial_function (option) cogl_matrix_entry_equal ::
  "('f, 'e, 'm) env \<Rightarrow> ('f, 'e, 'm) heap \<Rightarrow> addr option \<Rightarrow> addr option \<Rightarrow> bool option" where
  "cogl_matrix_entry_equal E h entry0 entry1 =
     (case entry0 of
        None \<Rightarrow> Some False
      | Some a0 \<Rightarrow>
     (case entry1 of
        None \<Rightarrow> Some False
      | Some a1 \<Rightarrow>
          Option.bind (cogl_matrix_entry_skip_saves h a0) (\<lambda>s0.
          Option.bind (cogl_matrix_entry_skip_saves h a1) (\<lambda>s1.
            if s0 = s1 then Some True
            else
              Option.bind (map_of h s0) (\<lambda>e0.
              Option.bind (map_of h s1) (\<lambda>e1.
                (case op e0 of
                   OP_LOAD_IDENTITY \<Rightarrow>
                     (case op e1 of OP_LOAD_IDENTITY \<Rightarrow> Some True | _ \<Rightarrow> Some False)
                 | OP_TRANSLATE t0 \<Rightarrow>
                     (case op e1 of
                        OP_TRANSLATE t1 \<Rightarrow>
                          if \<not> graphene_point3d_equal E t0 t1 then Some False
                          else cogl_matrix_entry_equal E h (parent e0) (parent e1)
                      | _ \<Rightarrow> Some False)
                 | OP_ROTATE angle0 axis0 \<Rightarrow>
                     (case op e1 of
                        OP_ROTATE angle1 axis1 \<Rightarrow>
                          if \<not> float_eq E angle0 angle1 \<or> \<not> graphene_vec3_equal E axis0 axis1
                          then Some False
                          else cogl_matrix_entry_equal E h (parent e0) (parent e1)
                      | _ \<Rightarrow> Some False)
                 | OP_ROTATE_EULER euler0 \<Rightarrow>
                     (case op e1 of
                        OP_ROTATE_EULER euler1 \<Rightarrow>
                          if \<not> graphene_euler_equal E euler0 euler1 then Some False
                          else cogl_matrix_entry_equal E h (parent e0) (parent e1)
                      | _ \<Rightarrow> Some False)
                 | OP_SCALE x0 y0 z0 \<Rightarrow>
                     (case op e1 of
                        OP_SCALE x1 y1 z1 \<Rightarrow>
                          if \<not> float_eq E x0 x1 \<or> \<not> float_eq E y0 y1 \<or> \<not> float_eq E z0 z1
                          then Some False
                          else cogl_matrix_entry_equal E h (parent e0) (parent e1)
                      | _ \<Rightarrow> Some False)
                 | OP_MULTIPLY m0 \<Rightarrow>
                     (case op e1 of
                        OP_MULTIPLY m1 \<Rightarrow>
                          if \<not> graphene_matrix_equal E m0 m1 then Some False
                          else cogl_matrix_entry_equal E h (parent e0) (parent e1)
                      | _ \<Rightarrow> Some False)
                 | OP_LOAD m0 \<Rightarrow>
                     (case op e1 of
                        OP_LOAD m1 \<Rightarrow> Some (graphene_matrix_equal E m0 m1)
                      | _ \<Rightarrow> Some False)
                 | OP_SAVE c0 v0 \<Rightarrow>
                     (case op e1 of
                        OP_SAVE c1 v1 \<Rightarrow> cogl_matrix_entry_equal E h (parent e0) (parent e1)
                      | _ \<Rightarrow> Some False))))))))"

subsection \<open>Relative translation\<close>

text \<open>
  The two list-building loops of \<^verbatim>\<open>cogl_matrix_entry_calculate_translation\<close>: a
  \<^verbatim>\<open>GSList\<close> of entry pointers is a list of addresses, \<^verbatim>\<open>head\<close> first; Save entries are
  skipped and the walk stops after the first entry that is not a translation.
\<close>

partial_function (option) translation_walk ::
  "('f, 'e, 'm) heap \<Rightarrow> addr option \<Rightarrow> addr list \<Rightarrow> addr list option" where
  "translation_walk h node head =
     (case node of
        None \<Rightarrow> Some head
      | Some a \<Rightarrow>
          (case map_of h a of
             None \<Rightarrow> None
           | Some e \<Rightarrow>
               if is_save (op e) then translation_walk h (parent e) head
               else if \<not> is_translate (op e) then Some (a # head)
               else translation_walk h (parent e) (a # head)))"

text \<open>
  The loop \<^verbatim>\<open>while (count--)\<close>.  In the source \<^verbatim>\<open>head0\<close> is always
  \<^verbatim>\<open>common_ancestor0->next\<close>, so the lists that remain are what the two summing loops
  start from.
\<close>

fun common_ancestor_loop ::
  "nat \<Rightarrow> addr list \<Rightarrow> addr list \<Rightarrow> (addr list \<times> addr list) option" where
  "common_ancestor_loop 0 head0 head1 = Some (head0, head1)"
| "common_ancestor_loop (Suc count) (d0 # next0) (d1 # next1) =
     (if d0 \<noteq> d1 then Some (d0 # next0, d1 # next1)
      else common_ancestor_loop count next0 next1)"
| "common_ancestor_loop (Suc count) head0 head1 = None"

text \<open>The two summing loops; \<open>Some None\<close> is the return of FALSE.\<close>

fun translation_subtract ::
  "('f::{zero,plus,minus}, 'e, 'm) heap \<Rightarrow> 'f point3d \<Rightarrow> addr list \<Rightarrow>
   'f point3d option option" where
  "translation_subtract h acc [] = Some (Some acc)"
| "translation_subtract h (x, y, z) (node0 # head0) =
     (case map_of h node0 of
        None \<Rightarrow> None
      | Some e \<Rightarrow>
          (case op e of
             OP_TRANSLATE (tx, ty, tz) \<Rightarrow> translation_subtract h (x - tx, y - ty, z - tz) head0
           | _ \<Rightarrow> Some None))"

fun translation_add ::
  "('f::{zero,plus,minus}, 'e, 'm) heap \<Rightarrow> 'f point3d \<Rightarrow> addr list \<Rightarrow>
   'f point3d option option" where
  "translation_add h acc [] = Some (Some acc)"
| "translation_add h (x, y, z) (node1 # head1) =
     (case map_of h node1 of
        None \<Rightarrow> None
      | Some e \<Rightarrow>
          (case op e of
             OP_TRANSLATE (tx, ty, tz) \<Rightarrow> translation_add h (x + tx, y + ty, z + tz) head1
           | _ \<Rightarrow> Some None))"

text \<open>
  \<^verbatim>\<open>cogl_matrix_entry_calculate_translation\<close>: \<open>None\<close> is a crash (the source reads
  \<^verbatim>\<open>head0->data\<close> of an empty list), \<open>Some None\<close> the return of FALSE and
  \<open>Some (Some (x, y, z))\<close> the return of TRUE with the three outputs.
\<close>

definition cogl_matrix_entry_calculate_translation ::
  "('f::{zero,plus,minus}, 'e, 'm) heap \<Rightarrow> addr option \<Rightarrow> addr option \<Rightarrow>
   'f point3d option option" where
  "cogl_matrix_entry_calculate_translation h entry0 entry1 =
     Option.bind (translation_walk h entry0 []) (\<lambda>head0.
     Option.bind (translation_walk h entry1 []) (\<lambda>head1.
       (case head0 of
          [] \<Rightarrow> None
        | d0 # next0 \<Rightarrow>
       (case head1 of
          [] \<Rightarrow> None
        | d1 # next1 \<Rightarrow>
            if d0 \<noteq> d1 then Some None
            else
              Option.bind
                (common_ancestor_loop (min (length head0) (length head1) - 1) next0 next1)
                (\<lambda>(after0, after1).
                   (case translation_subtract h (0, 0, 0) after0 of
                      None \<Rightarrow> None
                    | Some None \<Rightarrow> Some None
                    | Some (Some acc) \<Rightarrow> translation_add h acc after1))))))"

declare entry_get_from.simps [code]
declare push_replacement_entry_loop.simps [code]
declare pop_loop.simps [code]
declare cogl_matrix_entry_skip_saves.simps [code]
declare cogl_matrix_entry_equal.simps [code]
declare translation_walk.simps [code]

section \<open>Chains and the specification of the operations\<close>

text \<open>
  \<open>segment h p as q\<close>: following the parent links from the pointer \<open>p\<close> visits the live
  entries \<open>as\<close> in this order and arrives at \<open>q\<close>.  A chain is a segment that ends at
  NULL.  \<open>chain_ops\<close> reads the operations along a chain, the queried node first.
\<close>

primrec segment :: "('f, 'e, 'm) heap \<Rightarrow> addr option \<Rightarrow> addr list \<Rightarrow> addr option \<Rightarrow> bool" where
  "segment h p [] q = (p = q)"
| "segment h p (a # as) q =
     (p = Some a \<and> (case map_of h a of None \<Rightarrow> False | Some e \<Rightarrow> segment h (parent e) as q))"

abbreviation path :: "('f, 'e, 'm) heap \<Rightarrow> addr option \<Rightarrow> addr list \<Rightarrow> bool" where
  "path h p as \<equiv> segment h p as None"

definition chain_ops :: "('f, 'e, 'm) heap \<Rightarrow> addr list \<Rightarrow> ('f, 'e, 'm) matrix_op list" where
  "chain_ops h as = List.map_filter (\<lambda>a. map_option op (map_of h a)) as"

text \<open>
  The composite matrix as the spec describes it (section 4.3), on the list of the
  operations of a chain: the operations up to the first terminal one are applied to the
  running matrix in the order of the walk; LoadIdentity ends the walk, Load multiplies
  by the stored matrix, and Save multiplies by its cache, which is the composite of the
  chain above it when it has not been filled yet.
\<close>

fun is_terminal :: "('f, 'e, 'm) matrix_op \<Rightarrow> bool" where
  "is_terminal OP_LOAD_IDENTITY = True"
| "is_terminal (OP_LOAD m) = True"
| "is_terminal (OP_SAVE c v) = True"
| "is_terminal _ = False"

fun apply_op :: "('f, 'e, 'm) env \<Rightarrow> 'm \<Rightarrow> ('f, 'e, 'm) matrix_op \<Rightarrow> 'm" where
  "apply_op E m (OP_TRANSLATE p) = graphene_matrix_translate E m p"
| "apply_op E m (OP_ROTATE angle axis) = graphene_matrix_rotate E m angle axis"
| "apply_op E m (OP_ROTATE_EULER euler) = graphene_matrix_rotate_euler E m euler"
| "apply_op E m (OP_SCALE x y z) = graphene_matrix_scale E m x y z"
| "apply_op E m (OP_MULTIPLY m1) = graphene_matrix_multiply E m m1"
| "apply_op E m _ = m"

fun composite :: "('f, 'e, 'm) env \<Rightarrow> ('f, 'e, 'm) matrix_op list \<Rightarrow> 'm \<Rightarrow> 'm" where
  "composite E [] m = m"
| "composite E (OP_LOAD_IDENTITY # ops) m = m"
| "composite E (OP_LOAD m1 # ops) m = graphene_matrix_multiply E m m1"
| "composite E (OP_SAVE c v # ops) m =
     graphene_matrix_multiply E m
       (if v then c else composite E ops (graphene_matrix_init_identity E))"
| "composite E (x # ops) m = composite E ops (apply_op E m x)"

fun apply_terminal ::
  "('f, 'e, 'm) env \<Rightarrow> 'm \<Rightarrow> ('f, 'e, 'm) matrix_op \<Rightarrow> ('f, 'e, 'm) matrix_op list \<Rightarrow> 'm" where
  "apply_terminal E m (OP_LOAD m1) ops = graphene_matrix_multiply E m m1"
| "apply_terminal E m (OP_SAVE c v) ops =
     graphene_matrix_multiply E m
       (if v then c else composite E ops (graphene_matrix_init_identity E))"
| "apply_terminal E m _ ops = m"

text \<open>
  The matrix behind the pointer \<^verbatim>\<open>cogl_matrix_entry_get\<close> returns when the queried
  entry itself holds a composed matrix (section 4.3, step 4): the stored matrix of a
  Load, the cache of a Save.
\<close>

fun returned_matrix ::
  "('f, 'e, 'm) env \<Rightarrow> ('f, 'e, 'm) matrix_op list \<Rightarrow> 'm option" where
  "returned_matrix E (OP_LOAD m # ops) = Some m"
| "returned_matrix E (OP_SAVE c v # ops) =
     Some (if v then c else composite E ops (graphene_matrix_init_identity E))"
| "returned_matrix E ops = None"

text \<open>
  What an appending operation leaves behind: the stack's top is the chunk the allocator
  returned, and the heap is the old heap with one entry written there, whose parent is
  the previous top and whose count is 1.
\<close>

definition pushed ::
  "('f, 'e, 'm) env \<Rightarrow> ('f, 'e, 'm) heap \<Rightarrow> matrix_stack \<Rightarrow> ('f, 'e, 'm) matrix_op \<Rightarrow>
   ('f, 'e, 'm) heap \<times> matrix_stack \<Rightarrow> bool" where
  "pushed E h stack operation r =
     (last_entry (snd r) = Some (magazine_chunk_alloc E h) \<and>
      ctx (snd r) = ctx stack \<and>
      map_of (fst r) =
        (map_of h)(magazine_chunk_alloc E h \<mapsto>
           \<lparr>parent = last_entry stack, op = operation, ref_count = 1\<rparr>))"

text \<open>
  What is left of the heap (as a map) when the stack moves its reference from the head
  of a chain to the entry \<open>q\<close> at its end (\<^verbatim>\<open>cogl_matrix_entry_ref\<close> of \<open>q\<close>, then
  \<^verbatim>\<open>cogl_matrix_entry_unref\<close> of the head; section 4.1).  The chain is \<open>freed @ kept\<close>:
  the entries of \<open>freed\<close> have no other owner and are returned to the allocator; the
  first entry of \<open>kept\<close>, if there is one, has another owner and only loses one count,
  nothing above it is touched, and \<open>q\<close> gains the stack's reference.  When the whole
  chain is freed, the reference \<open>q\<close> gained is the one its child gave back.
\<close>

definition dropped_reference ::
  "(addr \<rightharpoonup> ('f, 'e, 'm) entry) \<Rightarrow> addr \<Rightarrow> addr list \<Rightarrow> addr list \<Rightarrow>
   (addr \<rightharpoonup> ('f, 'e, 'm) entry)" where
  "dropped_reference m q freed kept =
     (case kept of
        [] \<Rightarrow> m |` (- set freed)
      | b # bs \<Rightarrow>
          (m |` (- set freed))
            (q := map_option (\<lambda>e. e\<lparr>ref_count := ref_count e + 1\<rparr>) (m q),
             b := map_option (\<lambda>e. e\<lparr>ref_count := ref_count e - 1\<rparr>) (m b)))"

text \<open>
  The nodes of a chain that are not Save entries, each with its operation, the queried
  node first.
\<close>

definition chain_nodes ::
  "('f, 'e, 'm) heap \<Rightarrow> addr list \<Rightarrow> (addr \<times> ('f, 'e, 'm) matrix_op) list" where
  "chain_nodes h as =
     List.map_filter
       (\<lambda>a. case map_of h a of
               None \<Rightarrow> None
             | Some e \<Rightarrow> if is_save (op e) then None else Some (a, op e)) as"




text \<open>
  For the relative translation (section 4.4): the list a walk collects from the nodes of
  a chain without its Save entries (the nodes up to the first one that is not a
  translation, that one included), the componentwise difference and sum of two points,
  and the translations of a list of nodes.
\<close>

fun walk_nodes :: "(addr \<times> ('f, 'e, 'm) matrix_op) list \<Rightarrow> addr list" where
  "walk_nodes [] = []"
| "walk_nodes ((a, x) # ns) = (if is_translate x then a # walk_nodes ns else [a])"

fun point_sub :: "('f::minus) point3d \<Rightarrow> 'f point3d \<Rightarrow> 'f point3d" where
  "point_sub (x, y, z) (tx, ty, tz) = (x - tx, y - ty, z - tz)"

fun point_add :: "('f::plus) point3d \<Rightarrow> 'f point3d \<Rightarrow> 'f point3d" where
  "point_add (x, y, z) (tx, ty, tz) = (x + tx, y + ty, z + tz)"

definition node_translations ::
  "(addr \<times> ('f, 'e, 'm) matrix_op) list \<Rightarrow> 'f point3d list" where
  "node_translations ns =
     List.map_filter (\<lambda>n. case snd n of OP_TRANSLATE p \<Rightarrow> Some p | _ \<Rightarrow> None) ns"

text \<open>
  The result as section 4.4 words it: the sum of the translations of the second list of
  nodes minus the sum of the translations of the first, each sum taken on its own.
\<close>

definition sum_minus_sum ::
  "(addr \<times> ('f::{zero,plus,minus}, 'e, 'm) matrix_op) list \<Rightarrow>
   (addr \<times> ('f, 'e, 'm) matrix_op) list \<Rightarrow> 'f point3d" where
  "sum_minus_sum N0 N1 =
     point_sub (foldl point_add (0, 0, 0) (node_translations N1))
               (foldl point_add (0, 0, 0) (node_translations N0))"

text \<open>
  The mutating operations of the push/pop law (section 8), as values, and the run
  \<^verbatim>\<open>push(); M; pop()\<close> on a stack.
\<close>

datatype ('f, 'e, 'm) mutation =
    M_TRANSLATE 'f 'f 'f
  | M_ROTATE 'f 'f 'f 'f
  | M_ROTATE_EULER 'e
  | M_SCALE 'f 'f 'f
  | M_MULTIPLY 'm
  | M_LOAD_IDENTITY
  | M_SET 'm

fun mutate ::
  "('f, 'e, 'm) env \<Rightarrow> ('f, 'e, 'm) heap \<times> matrix_stack \<Rightarrow> ('f, 'e, 'm) mutation \<Rightarrow>
   (('f, 'e, 'm) heap \<times> matrix_stack) option" where
  "mutate E (h, stack) (M_TRANSLATE x y z) = Some (cogl_matrix_stack_translate E h stack x y z)"
| "mutate E (h, stack) (M_ROTATE angle x y z) =
     Some (cogl_matrix_stack_rotate E h stack angle x y z)"
| "mutate E (h, stack) (M_ROTATE_EULER euler) =
     Some (cogl_matrix_stack_rotate_euler E h stack euler)"
| "mutate E (h, stack) (M_SCALE x y z) = Some (cogl_matrix_stack_scale E h stack x y z)"
| "mutate E (h, stack) (M_MULTIPLY matrix) = Some (cogl_matrix_stack_multiply E h stack matrix)"
| "mutate E (h, stack) M_LOAD_IDENTITY = cogl_matrix_stack_load_identity E h stack"
| "mutate E (h, stack) (M_SET matrix) = cogl_matrix_stack_set E h stack matrix"

fun mutate_all ::
  "('f, 'e, 'm) env \<Rightarrow> ('f, 'e, 'm) heap \<times> matrix_stack \<Rightarrow> ('f, 'e, 'm) mutation list \<Rightarrow>
   (('f, 'e, 'm) heap \<times> matrix_stack) option" where
  "mutate_all E hs [] = Some hs"
| "mutate_all E hs (m # ms) = Option.bind (mutate E hs m) (\<lambda>hs'. mutate_all E hs' ms)"

definition push_mutate_pop ::
  "('f, 'e, 'm) env \<Rightarrow> ('f, 'e, 'm) heap \<Rightarrow> matrix_stack \<Rightarrow> ('f, 'e, 'm) mutation list \<Rightarrow>
   (('f, 'e, 'm) heap \<times> matrix_stack) option" where
  "push_mutate_pop E h stack ms =
     Option.bind (mutate_all E (cogl_matrix_stack_push E h stack) ms)
       (\<lambda>(h2, stack2). cogl_matrix_stack_pop h2 stack2)"

text \<open>
  The invariant of a run of mutating operations after a push: the chain of the stack is
  the list \<open>ys\<close> of entries created since the push, none of them a Save and each with
  count 1, on top of the Save entry \<open>s\<close> of the push, whose parent is the top before the
  push; none of these chunks was live before the push, and every other chunk is as it
  was.
\<close>

definition owned_node :: "('f, 'e, 'm) heap \<Rightarrow> addr \<Rightarrow> bool" where
  "owned_node h a =
     (case map_of h a of None \<Rightarrow> False | Some e \<Rightarrow> \<not> is_save (op e) \<and> ref_count e = 1)"

definition above_save ::
  "('f, 'e, 'm) heap \<Rightarrow> matrix_stack \<Rightarrow> addr \<Rightarrow> addr list \<Rightarrow>
   ('f, 'e, 'm) heap \<times> matrix_stack \<Rightarrow> bool" where
  "above_save h0 stack0 s ys hs =
     (case hs of (h, stack) \<Rightarrow>
        stack = stack0\<lparr>last_entry := last_entry stack\<rparr> \<and>
        segment h (last_entry stack) ys (Some s) \<and>
        distinct (ys @ [s]) \<and>
        (\<forall>a\<in>set ys. owned_node h a) \<and>
        (\<forall>a\<in>set (s # ys). map_of h0 a = None) \<and>
        (\<exists>e. map_of h s = Some e \<and> is_save (op e) \<and> ref_count e = 1 \<and>
             parent e = last_entry stack0) \<and>
        (\<forall>a. a \<notin> set (s # ys) \<longrightarrow> map_of h a = map_of h0 a))"

subsection \<open>An instance of the library for evaluation\<close>

text \<open>
  Matrices as words of elementary transformations: the identity is the empty word and
  the product is concatenation, so a composite shows the order of its factors.  Floats
  and Euler angles are integers (none is a NaN), the comparisons are equality, a word has an inverse
  unless it holds a scale by zero, and the allocator returns the address after the
  largest live one.
\<close>

datatype letter =
    L_TRANSLATE int int int
  | L_ROTATE int int int int
  | L_ROTATE_EULER int
  | L_SCALE int int int
  | L_INVERSE letter

fun singular_letter :: "letter \<Rightarrow> bool" where
  "singular_letter (L_SCALE x y z) = (x = 0 \<or> y = 0 \<or> z = 0)"
| "singular_letter (L_INVERSE l) = singular_letter l"
| "singular_letter _ = False"

definition first_free :: "(int, int, letter list) heap \<Rightarrow> addr" where
  "first_free h = Suc (foldr max (map fst h) 0)"

definition word_env :: "(int, int, letter list) env" where
  "word_env =
     \<lparr>graphene_matrix_init_identity = [],
      graphene_matrix_translate = (\<lambda>m (x, y, z). m @ [L_TRANSLATE x y z]),
      graphene_matrix_rotate = (\<lambda>m angle (x, y, z). m @ [L_ROTATE angle x y z]),
      graphene_matrix_rotate_euler = (\<lambda>m euler. m @ [L_ROTATE_EULER euler]),
      graphene_matrix_scale = (\<lambda>m x y z. m @ [L_SCALE x y z]),
      graphene_matrix_multiply = (\<lambda>a b. a @ b),
      graphene_matrix_inverse =
        (\<lambda>m. if list_ex singular_letter m then None else Some (rev (map L_INVERSE m))),
      graphene_matrix_equal = (=),
      graphene_point3d_equal = (=),
      graphene_vec3_equal = (=),
      graphene_euler_equal = (=),
      float_is_nan = (\<lambda>x. False),
      magazine_chunk_alloc = first_free,
      uninitialized_matrix = [],
      cogl_enable_debug = False\<rparr>"

text \<open>The chain \<^verbatim>\<open>translate(1,2,3)\<close> then \<^verbatim>\<open>scale(2,2,2)\<close> on the identity entry 0.\<close>

definition translate_scale_heap :: "(int, int, letter list) heap" where
  "translate_scale_heap =
     [(0, \<lparr>parent = None, op = OP_LOAD_IDENTITY, ref_count = 2\<rparr>),
      (1, \<lparr>parent = Some 0, op = OP_TRANSLATE (1, 2, 3), ref_count = 1\<rparr>),
      (2, \<lparr>parent = Some 1, op = OP_SCALE 2 2 2, ref_count = 1\<rparr>)]"




text \<open>
  A Save entry 2 between a translation and a scale, before and after its cache is
  filled.
\<close>

definition save_heap :: "(int, int, letter list) heap" where
  "save_heap =
     [(0, \<lparr>parent = None, op = OP_LOAD_IDENTITY, ref_count = 2\<rparr>),
      (1, \<lparr>parent = Some 0, op = OP_TRANSLATE (1, 2, 3), ref_count = 1\<rparr>),
      (2, \<lparr>parent = Some 1, op = OP_SAVE [] False, ref_count = 1\<rparr>),
      (3, \<lparr>parent = Some 2, op = OP_SCALE 2 2 2, ref_count = 1\<rparr>)]"


text \<open>The stack \<^verbatim>\<open>scale(0,0,0)\<close> on the identity entry 0.\<close>

definition singular_heap :: "(int, int, letter list) heap" where
  "singular_heap =
     [(0, \<lparr>parent = None, op = OP_LOAD_IDENTITY, ref_count = 2\<rparr>),
      (1, \<lparr>parent = Some 0, op = OP_SCALE 0 0 0, ref_count = 1\<rparr>)]"

text \<open>The same chain with a second owner of the scale entry 3 (a retained snapshot).\<close>

definition save_heap_shared :: "(int, int, letter list) heap" where
  "save_heap_shared =
     [(0, \<lparr>parent = None, op = OP_LOAD_IDENTITY, ref_count = 2\<rparr>),
      (1, \<lparr>parent = Some 0, op = OP_TRANSLATE (1, 2, 3), ref_count = 1\<rparr>),
      (2, \<lparr>parent = Some 1, op = OP_SAVE [] False, ref_count = 1\<rparr>),
      (3, \<lparr>parent = Some 2, op = OP_SCALE 2 2 2, ref_count = 2\<rparr>)]"

text \<open>The stack \<^verbatim>\<open>translate(1,0,0); translate(0,1,0)\<close> on the identity entry 0.\<close>

definition two_translates_heap :: "(int, int, letter list) heap" where
  "two_translates_heap =
     [(0, \<lparr>parent = None, op = OP_LOAD_IDENTITY, ref_count = 2\<rparr>),
      (1, \<lparr>parent = Some 0, op = OP_TRANSLATE (1, 0, 0), ref_count = 1\<rparr>),
      (2, \<lparr>parent = Some 1, op = OP_TRANSLATE (0, 1, 0), ref_count = 1\<rparr>)]"

text \<open>
  Stack A at translate(5,0,0) (entry 1), stack B built from the same root by
  translate(5,0,0); translate(2,0,0) (entries 2 and 3), and a stack with a rotation
  between the root and its translation (entries 4 and 5).
\<close>

definition translation_heap :: "(int, int, letter list) heap" where
  "translation_heap =
     [(0, \<lparr>parent = None, op = OP_LOAD_IDENTITY, ref_count = 4\<rparr>),
      (1, \<lparr>parent = Some 0, op = OP_TRANSLATE (5, 0, 0), ref_count = 1\<rparr>),
      (2, \<lparr>parent = Some 0, op = OP_TRANSLATE (5, 0, 0), ref_count = 1\<rparr>),
      (3, \<lparr>parent = Some 2, op = OP_TRANSLATE (2, 0, 0), ref_count = 1\<rparr>),
      (4, \<lparr>parent = Some 0, op = OP_ROTATE 90 (0, 0, 1), ref_count = 1\<rparr>),
      (5, \<lparr>parent = Some 4, op = OP_TRANSLATE (5, 0, 0), ref_count = 1\<rparr>)]"

text \<open>
  The C type \<^verbatim>\<open>float\<close> on whole numbers: \<open>Float n\<close> is the single-precision float of
  value \<open>n\<close>.  A sum or difference of two whole numbers is a whole number, and the
  float operation returns it rounded to 24 significant bits, to the nearest float and
  on a tie to the one with an even significand (IEEE 754 binary32, the default rounding
  mode): \<open>significand_shift m\<close> is the number of low bits that \<open>m\<close> has beyond 24.  Every
  whole number of magnitude up to \<open>2 ^ 24\<close> is a float and is returned unchanged.
  Overflow to infinity (magnitudes from \<open>2 ^ 128\<close>) is not modelled.
\<close>

datatype c_float = Float int

function significand_shift :: "int \<Rightarrow> nat" where
  "significand_shift m =
     (if m < 16777216 then 0 else Suc (significand_shift (m div 2)))"
  by pat_completeness auto
termination
  by (relation "measure nat") auto

declare significand_shift.simps [simp del]

definition round_float :: "int \<Rightarrow> int" where
  "round_float n =
     (let m = \<bar>n\<bar>;
          e = significand_shift m;
          q = m div 2 ^ e;
          r = m mod 2 ^ e;
          q' = (if 2 ^ e < 2 * r \<or> (2 * r = 2 ^ e \<and> odd q) then q + 1 else q)
      in sgn n * (q' * 2 ^ e))"

instantiation c_float :: "{zero, plus, minus}"
begin

definition zero_c_float :: c_float where
  "zero_c_float = Float 0"

fun plus_c_float :: "c_float \<Rightarrow> c_float \<Rightarrow> c_float" where
  "plus_c_float (Float a) (Float b) = Float (round_float (a + b))"

fun minus_c_float :: "c_float \<Rightarrow> c_float \<Rightarrow> c_float" where
  "minus_c_float (Float a) (Float b) = Float (round_float (a - b))"

instance ..

end

text \<open>
  Stacks of float translations on the identity entry 0.  Stack A at
  translate(16777216,0,0) (entry 1) and stack B built by translate(16777216,0,0);
  translate(1,0,0) (entries 2 and 3); stack A' at translate(-16777216,0,0) (entry 4)
  and stack B' built by translate(1,0,0); translate(-16777216,0,0) (entries 5 and 6).
  All the translations are floats: \<open>16777216 = 2 ^ 24\<close>.
\<close>

definition rounding_heap :: "(c_float, int, letter list) heap" where
  "rounding_heap =
     [(0, \<lparr>parent = None, op = OP_LOAD_IDENTITY, ref_count = 5\<rparr>),
      (1, \<lparr>parent = Some 0, op = OP_TRANSLATE (Float 16777216, Float 0, Float 0),
           ref_count = 1\<rparr>),
      (2, \<lparr>parent = Some 0, op = OP_TRANSLATE (Float 16777216, Float 0, Float 0),
           ref_count = 1\<rparr>),
      (3, \<lparr>parent = Some 2, op = OP_TRANSLATE (Float 1, Float 0, Float 0),
           ref_count = 1\<rparr>),
      (4, \<lparr>parent = Some 0, op = OP_TRANSLATE (Float (- 16777216), Float 0, Float 0),
           ref_count = 1\<rparr>),
      (5, \<lparr>parent = Some 0, op = OP_TRANSLATE (Float 1, Float 0, Float 0),
           ref_count = 1\<rparr>),
      (6, \<lparr>parent = Some 5, op = OP_TRANSLATE (Float (- 16777216), Float 0, Float 0),
           ref_count = 1\<rparr>)]"

section \<open>The composite evaluator\<close>

lemma chain_ops_Nil [simp]: "chain_ops h [] = []"
  by (simp add: chain_ops_def map_filter_simps)

lemma chain_ops_Cons:
  "map_of h a = Some e \<Longrightarrow> chain_ops h (a # as) = op e # chain_ops h as"
  by (simp add: chain_ops_def map_filter_simps)

lemma chain_ops_path_Nil:
  "path h p as \<Longrightarrow> (chain_ops h as = []) = (as = [])"
  by (cases as) (auto simp: chain_ops_Cons split: option.splits)

lemma applied_result:
  assumes "depth = 0 \<longrightarrow> entry = Some a" and "map_of h a = Some e"
  shows "entry_get_applied E h entry (Some a) depth =
    Some (if depth = 0
          then (case op e of OP_LOAD m \<Rightarrow> Some m | OP_SAVE c v \<Rightarrow> Some c | _ \<Rightarrow> None)
          else None)"
  using assms
  by (cases "depth = 0") (auto simp: entry_get_applied_def split: matrix_op.splits)

lemma entry_get_from_returns:
  assumes "path h cur xs"
    and "depth = 0 \<longrightarrow> entry = cur"
    and "cogl_enable_debug E \<or>
         ((xs = [] \<longrightarrow> depth \<noteq> 0) \<and> (xs \<noteq> [] \<longrightarrow> \<not> is_save (last (chain_ops h xs))))"
  shows "\<exists>h'. entry_get_from E h entry cur depth m =
           Some (h', composite E (chain_ops h xs) m,
                 if depth = 0 then returned_matrix E (chain_ops h xs) else None)"
  using assms
proof (induction xs arbitrary: cur depth entry m)
  case Nil
  then have cur: "cur = None" by simp
  have "entry_get_applied E h entry None depth = Some None"
    using Nil(3) by (auto simp: entry_get_applied_def)
  then show ?case
    using cur by (subst entry_get_from.simps) auto
next
  case (Cons a as)
  then obtain e where cur: "cur = Some a" and e: "map_of h a = Some e"
    and p: "path h (parent e) as"
    by (auto split: option.splits)
  have ops: "chain_ops h (a # as) = op e # chain_ops h as"
    using e by (rule chain_ops_Cons)
  have nil: "(chain_ops h as = []) = (as = [])"
    using p by (rule chain_ops_path_Nil)
  have wf': "cogl_enable_debug E \<or>
      ((as = [] \<longrightarrow> d \<noteq> 0) \<and> (as \<noteq> [] \<longrightarrow> \<not> is_save (last (chain_ops h as))))"
    if "d \<noteq> 0 \<or> is_save (op e)" for d :: nat
    using Cons.prems(3) that nil by (auto simp: ops)
  have step: "\<exists>h'. entry_get_from E h entry (parent e) (depth + 1) m' =
           Some (h', composite E (chain_ops h as) m', None)" for m'
    using Cons.IH [OF p, of "depth + 1" entry m'] wf' [of "depth + 1"] by auto
  have ent: "depth = 0 \<longrightarrow> entry = Some a"
    using Cons.prems(2) cur by simp
  note r0 = applied_result [OF ent e, of E]
  show ?case
  proof (cases "op e")
    case OP_LOAD_IDENTITY
    then show ?thesis
      using cur e r0 by (subst entry_get_from.simps) (simp add: ops)
  next
    case (OP_TRANSLATE p)
    then show ?thesis
      using cur e step by (subst entry_get_from.simps) (auto simp: ops)
  next
    case (OP_ROTATE angle axis)
    then show ?thesis
      using cur e step by (subst entry_get_from.simps) (auto simp: ops)
  next
    case (OP_ROTATE_EULER euler)
    then show ?thesis
      using cur e step by (subst entry_get_from.simps) (auto simp: ops)
  next
    case (OP_SCALE x y z)
    then show ?thesis
      using cur e step by (subst entry_get_from.simps) (auto simp: ops)
  next
    case (OP_MULTIPLY m1)
    then show ?thesis
      using cur e step by (subst entry_get_from.simps) (auto simp: ops)
  next
    case (OP_LOAD m1)
    then show ?thesis
      using cur e r0 by (subst entry_get_from.simps) (simp add: ops)
  next
    case (OP_SAVE c v)
    show ?thesis
    proof (cases v)
      case True
      then show ?thesis
        using OP_SAVE cur e r0 by (subst entry_get_from.simps) (simp add: ops)
    next
      case False
      let ?c = "composite E (chain_ops h as) (graphene_matrix_init_identity E)"
      have "\<exists>h'. entry_get_from E h (parent e) (parent e) 0 (graphene_matrix_init_identity E) =
           Some (h', ?c, if (0::nat) = 0 then returned_matrix E (chain_ops h as) else None)"
        by (rule Cons.IH [OF p]) (use wf' [of 0] OP_SAVE in auto)
      then obtain h1 r1 where rec:
        "entry_get_from E h (parent e) (parent e) 0 (graphene_matrix_init_identity E) =
           Some (h1, ?c, r1)"
        by blast
      let ?h2 = "AList.update a (e\<lparr>op := OP_SAVE ?c True\<rparr>) h1"
      have "map_of ?h2 a = Some (e\<lparr>op := OP_SAVE ?c True\<rparr>)"
        by (simp add: update_conv')
      note r2 = applied_result [OF ent this, of E]
      show ?thesis
        using OP_SAVE False cur e rec r2
        by (subst entry_get_from.simps) (simp add: ops)
    qed
  qed
qed

lemma composite_closed_form:
  assumes "\<forall>x\<in>set pre. \<not> is_terminal x" and "is_terminal t"
  shows "composite E (pre @ t # rest) m = apply_terminal E (foldl (apply_op E) m pre) t rest"
  using assms
proof (induction pre arbitrary: m)
  case Nil
  then show ?case by (cases t) auto
next
  case (Cons x pre)
  then show ?case by (cases x) auto
qed

text \<open>
  C1.  On a chain that reaches a terminal operation \<open>t\<close> after the operations \<open>pre\<close>,
  none of them terminal, \<^verbatim>\<open>cogl_matrix_entry_get\<close> returns, and its output matrix is the
  identity to which the operations of \<open>pre\<close> were applied one after the other, the
  queried node's first, each by its graphene function on the running matrix, followed by
  the terminal step: nothing for LoadIdentity, one multiplication by the stored matrix
  for Load, one multiplication by the cache for Save (the cache being the composite of
  the parent chain when it was not valid).  Nothing above \<open>t\<close> is applied.  The chain
  must not end in a Save entry unless the file is compiled with the debug checks, since
  the source then reads the operation of a NULL entry.

  For the chain translate(1,2,3); scale(2,2,2) the output is therefore
  \<open>graphene_matrix_translate (graphene_matrix_scale identity 2 2 2) (1, 2, 3)\<close>:
  graphene multiplies the running matrix on the right and transforms row vectors, so a
  point is scaled first and translated second, which is the product
  Translate(1,2,3) * Scale(2,2,2) of the column-vector convention.
\<close>

theorem composite_evaluator:
  assumes "path h entry xs"
    and "chain_ops h xs = pre @ t # rest"
    and "\<forall>x\<in>set pre. \<not> is_terminal x"
    and "is_terminal t"
    and "cogl_enable_debug E \<or> \<not> is_save (last (t # rest))"
  shows "\<exists>h' r. cogl_matrix_entry_get E h entry =
           Some (h', apply_terminal E
                       (foldl (apply_op E) (graphene_matrix_init_identity E) pre) t rest, r)"
proof -
  have "xs \<noteq> []"
    using assms(2) by auto
  moreover have "last (chain_ops h xs) = last (t # rest)"
    using assms(2) by simp
  ultimately have "\<exists>h' r. entry_get_from E h entry entry 0 (graphene_matrix_init_identity E) =
      Some (h', composite E (chain_ops h xs) (graphene_matrix_init_identity E), r)"
    using entry_get_from_returns [OF assms(1), of 0 entry E "graphene_matrix_init_identity E"]
      assms(5)
    by auto
  then show ?thesis
    using composite_closed_form [OF assms(3,4)] assms(2)
    by (simp add: cogl_matrix_entry_get_def)
qed

theorem composite_evaluator_witness:
  "path translate_scale_heap (Some 2) [2, 1, 0] \<and>
   chain_ops translate_scale_heap [2, 1, 0] =
     [OP_SCALE 2 2 2, OP_TRANSLATE (1, 2, 3)] @ OP_LOAD_IDENTITY # [] \<and>
   (\<exists>h' r. cogl_matrix_entry_get word_env translate_scale_heap (Some 2) =
      Some (h', [L_SCALE 2 2 2, L_TRANSLATE 1 2 3], r))"
  using composite_evaluator [of translate_scale_heap "Some 2" "[2, 1, 0]"
      "[OP_SCALE 2 2 2, OP_TRANSLATE (1, 2, 3)]" OP_LOAD_IDENTITY "[]" word_env]
  by (simp add: translate_scale_heap_def chain_ops_def map_filter_simps word_env_def)

section \<open>Appending operations\<close>

lemma segment_cong:
  "\<forall>a\<in>set as. map_of h' a = map_of h a \<Longrightarrow> segment h' p as q = segment h p as q"
  by (induction as arbitrary: p) (auto split: option.splits)

lemma chain_ops_cong:
  "\<forall>a\<in>set as. map_of h' a = map_of h a \<Longrightarrow> chain_ops h' as = chain_ops h as"
  by (induction as) (auto simp: chain_ops_def map_filter_simps split: option.splits)

lemma chain_nodes_cong:
  "\<forall>a\<in>set as. map_of h' a = map_of h a \<Longrightarrow> chain_nodes h' as = chain_nodes h as"
  by (induction as) (auto simp: chain_nodes_def map_filter_simps split: option.splits)

lemma segment_live: "segment h p as q \<Longrightarrow> a \<in> set as \<Longrightarrow> map_of h a \<noteq> None"
  by (induction as arbitrary: p) (auto split: option.splits)

lemma push_operation_pushed:
  "pushed E h stack operation (cogl_matrix_stack_push_operation E h stack operation)"
  by (auto simp: pushed_def cogl_matrix_stack_push_operation_def cogl_matrix_entry_new_def
      cogl_matrix_stack_push_entry_def Let_def map_of_map_entry update_conv')

lemma pushed_frame:
  assumes "pushed E h stack operation r" and "map_of h (magazine_chunk_alloc E h) = None"
    and "map_of h a = Some e"
  shows "map_of (fst r) a = Some e"
  using assms by (auto simp: pushed_def)

lemma pushed_path:
  assumes "pushed E h stack operation r" and "map_of h (magazine_chunk_alloc E h) = None"
    and "segment h p xs q"
  shows "segment (fst r) p xs q \<and> chain_ops (fst r) xs = chain_ops h xs"
proof -
  have "\<forall>a\<in>set xs. map_of (fst r) a = map_of h a"
  proof
    fix a assume "a \<in> set xs"
    then obtain e where "map_of h a = Some e"
      using segment_live [OF assms(3)] by auto
    then show "map_of (fst r) a = map_of h a"
      using pushed_frame [OF assms(1,2)] by simp
  qed
  then show ?thesis
    using assms(3) segment_cong chain_ops_cong by blast
qed

text \<open>
  C9.  Each of translate, rotate, rotate_euler, scale and multiply writes exactly one
  entry, at the chunk the allocator returns, with the previous top as its parent, and
  makes it the top.  When that chunk is not live, every entry of the old heap is still
  there unchanged, so a chain seen from any other stack is the same chain with the same
  operations.
\<close>

theorem appending_operations:
  assumes "map_of h (magazine_chunk_alloc E h) = None"
    and "path h (last_entry other) xs"
    and "r \<in> {cogl_matrix_stack_translate E h stack x y z,
              cogl_matrix_stack_rotate E h stack angle ax ay az,
              cogl_matrix_stack_rotate_euler E h stack euler,
              cogl_matrix_stack_scale E h stack sx sy sz,
              cogl_matrix_stack_multiply E h stack matrix}"
  shows "pushed E h stack (OP_TRANSLATE (x, y, z)) (cogl_matrix_stack_translate E h stack x y z) \<and>
         pushed E h stack (OP_ROTATE angle (ax, ay, az))
           (cogl_matrix_stack_rotate E h stack angle ax ay az) \<and>
         pushed E h stack (OP_ROTATE_EULER euler) (cogl_matrix_stack_rotate_euler E h stack euler) \<and>
         pushed E h stack (OP_SCALE sx sy sz) (cogl_matrix_stack_scale E h stack sx sy sz) \<and>
         pushed E h stack (OP_MULTIPLY matrix) (cogl_matrix_stack_multiply E h stack matrix) \<and>
         (\<forall>a e. map_of h a = Some e \<longrightarrow> map_of (fst r) a = Some e) \<and>
         path (fst r) (last_entry other) xs \<and>
         chain_ops (fst r) xs = chain_ops h xs"
proof -
  have five:
    "pushed E h stack (OP_TRANSLATE (x, y, z)) (cogl_matrix_stack_translate E h stack x y z)"
    "pushed E h stack (OP_ROTATE angle (ax, ay, az))
           (cogl_matrix_stack_rotate E h stack angle ax ay az)"
    "pushed E h stack (OP_ROTATE_EULER euler) (cogl_matrix_stack_rotate_euler E h stack euler)"
    "pushed E h stack (OP_SCALE sx sy sz) (cogl_matrix_stack_scale E h stack sx sy sz)"
    "pushed E h stack (OP_MULTIPLY matrix) (cogl_matrix_stack_multiply E h stack matrix)"
    unfolding cogl_matrix_stack_translate_def cogl_matrix_stack_rotate_def
      cogl_matrix_stack_rotate_euler_def cogl_matrix_stack_scale_def
      cogl_matrix_stack_multiply_def
    by (rule push_operation_pushed)+
  from assms(3) five obtain operation where r: "pushed E h stack operation r"
    by auto
  have "\<forall>a e. map_of h a = Some e \<longrightarrow> map_of (fst r) a = Some e"
    using pushed_frame [OF r assms(1)] by blast
  moreover have "path (fst r) (last_entry other) xs \<and> chain_ops (fst r) xs = chain_ops h xs"
    using pushed_path [OF r assms(1,2)] .
  ultimately show ?thesis
    using five by blast
qed

theorem appending_operations_witness:
  "map_of translate_scale_heap (magazine_chunk_alloc word_env translate_scale_heap) = None \<and>
   path translate_scale_heap (Some 1) [1, 0] \<and>
   pushed word_env translate_scale_heap \<lparr>ctx = \<lparr>identity_entry = 0\<rparr>, last_entry = Some 2\<rparr>
     (OP_TRANSLATE (5, 0, 0))
     (cogl_matrix_stack_translate word_env translate_scale_heap
        \<lparr>ctx = \<lparr>identity_entry = 0\<rparr>, last_entry = Some 2\<rparr> 5 0 0) \<and>
   path (fst (cogl_matrix_stack_translate word_env translate_scale_heap
        \<lparr>ctx = \<lparr>identity_entry = 0\<rparr>, last_entry = Some 2\<rparr> 5 0 0)) (Some 1) [1, 0] \<and>
   chain_ops (fst (cogl_matrix_stack_translate word_env translate_scale_heap
        \<lparr>ctx = \<lparr>identity_entry = 0\<rparr>, last_entry = Some 2\<rparr> 5 0 0)) [1, 0] =
     [OP_TRANSLATE (1, 2, 3), OP_LOAD_IDENTITY]"
  using appending_operations [of translate_scale_heap word_env
      "\<lparr>ctx = \<lparr>identity_entry = 0\<rparr>, last_entry = Some 1\<rparr>" "[1, 0]"
      "cogl_matrix_stack_translate word_env translate_scale_heap
        \<lparr>ctx = \<lparr>identity_entry = 0\<rparr>, last_entry = Some 2\<rparr> 5 0 0"
      "\<lparr>ctx = \<lparr>identity_entry = 0\<rparr>, last_entry = Some 2\<rparr>" 5 0 0]
  by (simp add: translate_scale_heap_def word_env_def first_free_def chain_ops_def
      map_filter_simps)

section \<open>Structural equality\<close>

lemma chain_nodes_Nil [simp]: "chain_nodes h [] = []"
  by (simp add: chain_nodes_def map_filter_simps)

lemma chain_nodes_Cons:
  "map_of h a = Some e \<Longrightarrow>
   chain_nodes h (a # as) =
     (if is_save (op e) then chain_nodes h as else (a, op e) # chain_nodes h as)"
  by (simp add: chain_nodes_def map_filter_simps)

text \<open>Skipping the Save entries of a chain whose last entry is not a Save.\<close>

lemma skip_saves_chain:
  assumes "path h (Some a) xs" and "\<not> is_save (last (chain_ops h xs))"
  shows "\<exists>s e rest. cogl_matrix_entry_skip_saves h a = Some s \<and> map_of h s = Some e \<and>
           \<not> is_save (op e) \<and> path h (parent e) rest \<and> length rest < length xs \<and>
           (rest \<noteq> [] \<longrightarrow> \<not> is_save (last (chain_ops h rest))) \<and>
           chain_nodes h xs = (s, op e) # chain_nodes h rest"
  using assms
proof (induction xs arbitrary: a)
  case Nil
  then show ?case by simp
next
  case (Cons b bs)
  then obtain e where b: "b = a" and e: "map_of h a = Some e" and p: "path h (parent e) bs"
    by (auto split: option.splits)
  have ops: "chain_ops h (a # bs) = op e # chain_ops h bs"
    using e by (rule chain_ops_Cons)
  have nil: "(chain_ops h bs = []) = (bs = [])"
    using p by (rule chain_ops_path_Nil)
  show ?case
  proof (cases "is_save (op e)")
    case False
    have "bs \<noteq> [] \<longrightarrow> \<not> is_save (last (chain_ops h bs))"
      using Cons.prems(2) nil by (auto simp: b ops split: if_splits)
    moreover have "cogl_matrix_entry_skip_saves h a = Some a"
      using False e by (subst cogl_matrix_entry_skip_saves.simps) simp
    ultimately show ?thesis
      using False e p b
      by (intro exI [of _ a] exI [of _ e] exI [of _ bs]) (simp add: chain_nodes_Cons)
  next
    case True
    then have bs: "bs \<noteq> []"
      using Cons.prems(2) by (auto simp: b ops)
    then obtain c where c: "parent e = Some c"
      using p by (cases bs) auto
    have last: "\<not> is_save (last (chain_ops h bs))"
      using Cons.prems(2) nil bs by (simp add: b ops)
    from Cons.IH [OF p [unfolded c] last]
    obtain s e' rest where
      "cogl_matrix_entry_skip_saves h c = Some s" "map_of h s = Some e'"
      "\<not> is_save (op e')" "path h (parent e') rest" "length rest < length bs"
      "rest \<noteq> [] \<longrightarrow> \<not> is_save (last (chain_ops h rest))"
      "chain_nodes h bs = (s, op e') # chain_nodes h rest"
      by blast
    then show ?thesis
      using True e c b
      by (subst cogl_matrix_entry_skip_saves.simps) (auto simp: chain_nodes_Cons)
  qed
qed

lemma entry_equal_same:
  assumes "cogl_matrix_entry_skip_saves h a0 = Some s"
    and "cogl_matrix_entry_skip_saves h a1 = Some s"
  shows "cogl_matrix_entry_equal E h (Some a0) (Some a1) = Some True"
  using assms by (subst cogl_matrix_entry_equal.simps) simp







section \<open>The cache of a Save entry and the inverse\<close>

lemma entry_get_returns:
  assumes "path h entry xs"
    and "cogl_enable_debug E \<or> (xs \<noteq> [] \<and> \<not> is_save (last (chain_ops h xs)))"
  shows "\<exists>h'. cogl_matrix_entry_get E h entry =
           Some (h', composite E (chain_ops h xs) (graphene_matrix_init_identity E),
                 returned_matrix E (chain_ops h xs))"
  using entry_get_from_returns [OF assms(1), of 0 entry E "graphene_matrix_init_identity E"]
    assms(2)
  by (auto simp: cogl_matrix_entry_get_def)

lemma returned_matrix_composite:
  assumes "returned_matrix E ops = Some i"
  shows "composite E ops m = graphene_matrix_multiply E m i"
  using assms by (cases "(E, ops)" rule: returned_matrix.cases) auto







text \<open>
  C8.  \<^verbatim>\<open>cogl_matrix_stack_get_inverse\<close> returns on every chain that
  \<^verbatim>\<open>cogl_matrix_stack_get\<close> accepts, with the heap \<^verbatim>\<open>cogl_matrix_stack_get\<close> leaves and
  the answer of \<^verbatim>\<open>graphene_matrix_inverse\<close> on the composite matrix: a failure value
  when the library finds it singular, the inverse otherwise.  The source inverts the
  matrix behind the returned pointer when there is one; this is the composite when the
  identity is a left unit of the library's product, which is assumed.
\<close>

theorem get_inverse_of_composite:
  assumes "path h (last_entry stack) xs"
    and "cogl_enable_debug E \<or> (xs \<noteq> [] \<and> \<not> is_save (last (chain_ops h xs)))"
    and "\<forall>m. graphene_matrix_multiply E (graphene_matrix_init_identity E) m = m"
  shows "\<exists>h' r.
           cogl_matrix_stack_get E h stack =
             Some (h', composite E (chain_ops h xs) (graphene_matrix_init_identity E), r) \<and>
           cogl_matrix_stack_get_inverse E h stack =
             Some (h', graphene_matrix_inverse E
                         (composite E (chain_ops h xs) (graphene_matrix_init_identity E)))"
proof -
  let ?M = "composite E (chain_ops h xs) (graphene_matrix_init_identity E)"
  obtain h' where get: "cogl_matrix_stack_get E h stack =
      Some (h', ?M, returned_matrix E (chain_ops h xs))"
    using entry_get_returns [OF assms(1,2)] by (auto simp: cogl_matrix_stack_get_def)
  have "graphene_matrix_inverse E i = graphene_matrix_inverse E ?M"
    if "returned_matrix E (chain_ops h xs) = Some i" for i
    using returned_matrix_composite [OF that, of "graphene_matrix_init_identity E"] assms(3)
    by simp
  then have "cogl_matrix_stack_get_inverse E h stack = Some (h', graphene_matrix_inverse E ?M)"
    using get
    by (cases "returned_matrix E (chain_ops h xs)")
       (simp_all add: cogl_matrix_stack_get_inverse_def)
  then show ?thesis
    using get by blast
qed

theorem get_inverse_of_composite_witness:
  "(\<forall>m. graphene_matrix_multiply word_env (graphene_matrix_init_identity word_env) m = m) \<and>
   path singular_heap (Some 1) [1, 0] \<and>
   (\<exists>h'. cogl_matrix_stack_get_inverse word_env singular_heap
            \<lparr>ctx = \<lparr>identity_entry = 0\<rparr>, last_entry = Some 1\<rparr> = Some (h', None)) \<and>
   path translate_scale_heap (Some 2) [2, 1, 0] \<and>
   (\<exists>h'. cogl_matrix_stack_get_inverse word_env translate_scale_heap
            \<lparr>ctx = \<lparr>identity_entry = 0\<rparr>, last_entry = Some 2\<rparr> =
          Some (h', Some [L_INVERSE (L_TRANSLATE 1 2 3), L_INVERSE (L_SCALE 2 2 2)]))"
  using get_inverse_of_composite [where h = singular_heap and xs = "[1, 0]" and E = word_env
      and stack = "\<lparr>ctx = \<lparr>identity_entry = 0\<rparr>, last_entry = Some 1\<rparr>"]
    get_inverse_of_composite [where h = translate_scale_heap and xs = "[2, 1, 0]"
      and E = word_env and stack = "\<lparr>ctx = \<lparr>identity_entry = 0\<rparr>, last_entry = Some 2\<rparr>"]
  by (auto simp: singular_heap_def translate_scale_heap_def chain_ops_def map_filter_simps
      word_env_def)

section \<open>Reference counts: pop and the replacing operations\<close>

lemma segment_append:
  "segment h p (xs @ ys) q = (\<exists>r. segment h p xs r \<and> segment h r ys q)"
  by (induction xs arbitrary: p) (auto split: option.splits)

lemma segment_unique:
  "segment h p xs None \<Longrightarrow> segment h p ys None \<Longrightarrow> xs = ys"
proof (induction xs arbitrary: p ys)
  case Nil
  then show ?case by (cases ys) auto
next
  case (Cons a as)
  then show ?case by (cases ys) (auto split: option.splits)
qed

lemma path_distinct: "path h p xs \<Longrightarrow> distinct xs"
proof (induction xs arbitrary: p)
  case Nil
  then show ?case by simp
next
  case (Cons a as)
  then obtain e where e: "map_of h a = Some e" and p: "path h (parent e) as"
    by (auto split: option.splits)
  have "a \<notin> set as"
  proof
    assume "a \<in> set as"
    then obtain ys zs where as: "as = ys @ a # zs"
      by (auto simp: in_set_conv_decomp)
    then have "path h (Some a) (a # zs)"
      using p by (auto simp: segment_append)
    moreover have "path h (Some a) (a # as)"
      using e p by simp
    ultimately have "a # zs = a # as"
      by (rule segment_unique)
    then show False using as by simp
  qed
  then show ?case using Cons.IH [OF p] by simp
qed

lemma word_dec_le_0: "(w - 1 \<le> (0 :: 32 word)) = (w = 1)"
  by (simp add: word_le_0_iff)

lemma unref_shared:
  assumes "map_of h b = Some e" and "ref_count e \<noteq> 1"
  shows "cogl_matrix_entry_unref h (Some b) =
           Some (AList.update b (e\<lparr>ref_count := ref_count e - 1\<rparr>) h)"
  using assms by (simp add: word_dec_le_0)

lemma unref_owned:
  assumes "segment h p xs q" and "distinct xs"
    and "\<forall>a\<in>set xs. map_option ref_count (map_of h a) = Some 1"
  shows "\<exists>h'. cogl_matrix_entry_unref h p = cogl_matrix_entry_unref h' q \<and>
           map_of h' = map_of h |` (- set xs)"
  using assms
proof (induction xs arbitrary: h p)
  case Nil
  then show ?case by auto
next
  case (Cons a as)
  then obtain e where p: "p = Some a" and e: "map_of h a = Some e"
    and s: "segment h (parent e) as q"
    by (auto split: option.splits)
  have one: "ref_count e = 1"
    using Cons.prems(3) e by simp
  let ?h = "AList.delete a h"
  have same: "\<forall>b\<in>set as. map_of ?h b = map_of h b"
    using Cons.prems(2) by (auto simp: delete_conv')
  have "segment ?h (parent e) as q"
    using s segment_cong [OF same] by simp
  moreover have "\<forall>b\<in>set as. map_option ref_count (map_of ?h b) = Some 1"
    using Cons.prems(3) same by simp
  ultimately obtain h' where h': "cogl_matrix_entry_unref ?h (parent e) =
      cogl_matrix_entry_unref h' q" "map_of h' = map_of ?h |` (- set as)"
    using Cons.IH [of ?h "parent e"] Cons.prems(2) by auto
  have "cogl_matrix_entry_unref h p = cogl_matrix_entry_unref ?h (parent e)"
    using p e one by simp
  moreover have "map_of h' = map_of h |` (- set (a # as))"
    using h'(2) by (auto simp: delete_conv' restrict_map_def fun_eq_iff)
  ultimately show ?case
    using h'(1) by auto
qed

lemma ref_unref:
  assumes "segment h p (freed @ kept) (Some q)" and "distinct (freed @ kept @ [q])"
    and "map_of h q = Some eq" and "ref_count eq \<noteq> 0"
    and "\<forall>a\<in>set freed. map_option ref_count (map_of h a) = Some 1"
    and "kept \<noteq> [] \<longrightarrow> map_option ref_count (map_of h (hd kept)) \<noteq> Some 1"
  shows "\<exists>h1 h2. cogl_matrix_entry_ref h (Some q) = Some h1 \<and>
           cogl_matrix_entry_unref h1 p = Some h2 \<and>
           map_of h2 = dropped_reference (map_of h) q freed kept"
proof -
  let ?h1 = "AList.update q (eq\<lparr>ref_count := ref_count eq + 1\<rparr>) h"
  have ref: "cogl_matrix_entry_ref h (Some q) = Some ?h1"
    using assms(3) by (simp add: cogl_matrix_entry_ref_def)
  have same: "\<forall>a\<in>set (freed @ kept). map_of ?h1 a = map_of h a"
    using assms(2) by (auto simp: update_conv')
  have seg1: "segment ?h1 p (freed @ kept) (Some q)"
    using assms(1) segment_cong [OF same] by simp
  then obtain r where r: "segment ?h1 p freed r" "segment ?h1 r kept (Some q)"
    by (auto simp: segment_append)
  have "\<forall>a\<in>set freed. map_option ref_count (map_of ?h1 a) = Some 1"
    using assms(5) same by simp
  then obtain h' where h': "cogl_matrix_entry_unref ?h1 p = cogl_matrix_entry_unref h' r"
      "map_of h' = map_of ?h1 |` (- set freed)"
    using unref_owned [OF r(1)] assms(2) by auto
  show ?thesis
  proof (cases kept)
    case Nil
    then have rq: "r = Some q" using r(2) by simp
    have q': "map_of h' q = Some (eq\<lparr>ref_count := ref_count eq + 1\<rparr>)"
      using h'(2) assms(2) by (simp add: update_conv' restrict_map_def)
    have "ref_count (eq\<lparr>ref_count := ref_count eq + 1\<rparr>) \<noteq> 1"
      using assms(4) by simp
    from unref_shared [OF q' this]
    have "cogl_matrix_entry_unref ?h1 p = Some (AList.update q eq h')"
      using h'(1) rq by simp
    moreover have "map_of (AList.update q eq h') = dropped_reference (map_of h) q freed kept"
      using Nil h'(2) assms(2,3)
      by (auto simp: dropped_reference_def update_conv' restrict_map_def fun_eq_iff)
    ultimately show ?thesis using ref by blast
  next
    case (Cons b bs)
    then have rb: "r = Some b" using r(2) by simp
    obtain eb where eb0: "map_of ?h1 b = Some eb"
      using r(2) Cons by (auto split: option.splits)
    have bq: "b \<noteq> q" "b \<notin> set freed"
      using assms(2) Cons by auto
    then have eb: "map_of h b = Some eb" "map_of h' b = Some eb"
      using eb0 h'(2) by (auto simp: update_conv' restrict_map_def)
    have "ref_count eb \<noteq> 1"
      using assms(6) Cons eb by simp
    from unref_shared [OF eb(2) this]
    have "cogl_matrix_entry_unref ?h1 p =
        Some (AList.update b (eb\<lparr>ref_count := ref_count eb - 1\<rparr>) h')"
      using h'(1) rb by simp
    moreover have "map_of (AList.update b (eb\<lparr>ref_count := ref_count eb - 1\<rparr>) h') =
        dropped_reference (map_of h) q freed kept"
      using Cons h'(2) assms(2,3) eb(1) bq
      by (auto simp: dropped_reference_def update_conv' restrict_map_def fun_eq_iff)
    ultimately show ?thesis using ref by blast
  qed
qed

lemma pop_loop_segment:
  assumes "segment h p seg (Some s)" and "\<forall>x\<in>set (chain_ops h seg). \<not> is_save x"
    and "map_of h s = Some es" and "is_save (op es)"
  shows "pop_loop h p = Some s"
  using assms
proof (induction seg arbitrary: p)
  case Nil
  then show ?case by (subst pop_loop.simps) simp
next
  case (Cons a as)
  then obtain e where p: "p = Some a" and e: "map_of h a = Some e"
    and s: "segment h (parent e) as (Some s)"
    by (auto split: option.splits)
  have ops: "chain_ops h (a # as) = op e # chain_ops h as"
    using e by (rule chain_ops_Cons)
  have "pop_loop h p = pop_loop h (parent e)"
    using p e Cons.prems(2) by (subst pop_loop.simps) (simp add: ops)
  then show ?case
    using Cons.IH [OF s] Cons.prems by (simp add: ops)
qed

lemma push_replacement_entry_loop_segment:
  assumes "segment h p seg (Some b)" and "\<forall>x\<in>set (chain_ops h seg). \<not> is_save x"
    and "map_of h b = Some eb" and "is_save (op eb) \<or> parent eb = None"
  shows "push_replacement_entry_loop h p = Some b"
  using assms
proof (induction seg arbitrary: p)
  case Nil
  then show ?case by (subst push_replacement_entry_loop.simps) auto
next
  case (Cons a as)
  then obtain e where p: "p = Some a" and e: "map_of h a = Some e"
    and s: "segment h (parent e) as (Some b)"
    by (auto split: option.splits)
  have ops: "chain_ops h (a # as) = op e # chain_ops h as"
    using e by (rule chain_ops_Cons)
  have "parent e \<noteq> None"
    using s by (cases as) auto
  then have "push_replacement_entry_loop h p = push_replacement_entry_loop h (parent e)"
    using p e Cons.prems(2) by (subst push_replacement_entry_loop.simps) (simp add: ops)
  then show ?case
    using Cons.IH [OF s] Cons.prems by (simp add: ops)
qed

lemma pop_result:
  assumes "segment h (last_entry stack) (seg @ [s]) (Some t)"
    and "distinct (seg @ [s] @ [t])"
    and "\<forall>x\<in>set (chain_ops h seg). \<not> is_save x"
    and "map_of h s = Some es" and "is_save (op es)"
    and "map_of h t = Some et" and "ref_count et \<noteq> 0"
    and "seg @ [s] = freed @ kept"
    and "\<forall>a\<in>set freed. map_option ref_count (map_of h a) = Some 1"
    and "kept \<noteq> [] \<longrightarrow> map_option ref_count (map_of h (hd kept)) \<noteq> Some 1"
  shows "\<exists>h'. cogl_matrix_stack_pop h stack = Some (h', stack\<lparr>last_entry := Some t\<rparr>) \<and>
           map_of h' = dropped_reference (map_of h) t freed kept"
proof -
  have seg: "segment h (last_entry stack) seg (Some s)" and par: "parent es = Some t"
    using assms(1,4) by (auto simp: segment_append split: option.splits)
  have seg2: "segment h (last_entry stack) (freed @ kept) (Some t)"
    using assms(1,8) by simp
  have dist2: "distinct (freed @ kept @ [t])"
    using assms(2,8) by (metis append.assoc)
  obtain top where top: "last_entry stack = Some top"
    using assms(1) by (cases seg) auto
  have loop: "pop_loop h (Some top) = Some s"
    using pop_loop_segment [OF seg assms(3,4,5)] top by simp
  from ref_unref [OF seg2 dist2 assms(6,7,9,10)]
  obtain h1 h2 where "cogl_matrix_entry_ref h (Some t) = Some h1"
    "cogl_matrix_entry_unref h1 (last_entry stack) = Some h2"
    "map_of h2 = dropped_reference (map_of h) t freed kept"
    by blast
  then show ?thesis
    using top loop assms(4) par by (simp add: cogl_matrix_stack_pop_def)
qed

lemma push_replacement_entry_result:
  assumes "segment h (last_entry stack) (freed @ kept) (Some b)"
    and "distinct (freed @ kept @ [b])"
    and "\<forall>x\<in>set (chain_ops h (freed @ kept)). \<not> is_save x"
    and "map_of h b = Some eb" and "is_save (op eb) \<or> parent eb = None"
    and "ref_count eb \<noteq> 0"
    and "\<forall>a\<in>set freed. map_option ref_count (map_of h a) = Some 1"
    and "kept \<noteq> [] \<longrightarrow> map_option ref_count (map_of h (hd kept)) \<noteq> Some 1"
  shows "\<exists>h2. map_of h2 = dropped_reference (map_of h) b freed kept \<and>
           (\<forall>operation. cogl_matrix_stack_push_replacement_entry E h stack operation =
              Some (cogl_matrix_stack_push_operation E h2
                      (stack\<lparr>last_entry := Some b\<rparr>) operation))"
proof -
  have loop: "push_replacement_entry_loop h (last_entry stack) = Some b"
    by (rule push_replacement_entry_loop_segment [OF assms(1,3,4,5)])
  from ref_unref [OF assms(1,2,4,6,7,8)]
  obtain h1 h2 where h: "cogl_matrix_entry_ref h (Some b) = Some h1"
    "cogl_matrix_entry_unref h1 (last_entry stack) = Some h2"
    "map_of h2 = dropped_reference (map_of h) b freed kept"
    by blast
  have "cogl_matrix_stack_push_replacement_entry E h stack operation =
      Some (cogl_matrix_stack_push_operation E h2 (stack\<lparr>last_entry := Some b\<rparr>) operation)"
    for operation
    using loop h by (simp add: cogl_matrix_stack_push_replacement_entry_def)
  then show ?thesis
    using h(3) by blast
qed

text \<open>
  C5.  On a chain whose nearest Save entry is \<open>s\<close>, with the entries \<open>seg\<close> below the
  top and the parent \<open>t\<close> of \<open>s\<close>, \<^verbatim>\<open>cogl_matrix_stack_pop\<close> returns, the new top is
  \<open>t\<close>, and the heap is the old one after the stack has moved its reference from the old
  top to \<open>t\<close>: of the removed entries \<open>seg @ [s]\<close>, those the stack alone owned are freed
  (all of them when none has another owner, and then nothing else changes), the first
  one with another owner loses one count, and no entry outside the removed ones is
  touched but \<open>t\<close>, which then keeps the stack's reference.
\<close>

theorem pop_releases_removed_nodes:
  assumes "path h (last_entry stack) (seg @ s # t # rest)"
    and "\<forall>x\<in>set (chain_ops h seg). \<not> is_save x"
    and "map_of h s = Some es" and "is_save (op es)"
    and "map_of h t = Some et" and "ref_count et \<noteq> 0"
    and "seg @ [s] = freed @ kept"
    and "\<forall>a\<in>set freed. map_option ref_count (map_of h a) = Some 1"
    and "kept \<noteq> [] \<longrightarrow> map_option ref_count (map_of h (hd kept)) \<noteq> Some 1"
  shows "\<exists>h'. cogl_matrix_stack_pop h stack = Some (h', stack\<lparr>last_entry := Some t\<rparr>) \<and>
           map_of h' = dropped_reference (map_of h) t freed kept"
proof -
  have "distinct (seg @ s # t # rest)"
    using assms(1) by (rule path_distinct)
  then have dist: "distinct (seg @ [s] @ [t])"
    by auto
  have seg: "segment h (last_entry stack) (seg @ [s]) (Some t)"
    using assms(1,3) by (auto simp: segment_append split: option.splits)
  show ?thesis
    by (rule pop_result [OF seg dist assms(2-9)])
qed

theorem pop_releases_removed_nodes_witness:
  "path save_heap (Some 3) ([3] @ 2 # 1 # [0]) \<and>
   (\<exists>h'. cogl_matrix_stack_pop save_heap \<lparr>ctx = \<lparr>identity_entry = 0\<rparr>, last_entry = Some 3\<rparr> =
            Some (h', \<lparr>ctx = \<lparr>identity_entry = 0\<rparr>, last_entry = Some 1\<rparr>) \<and>
          map_of h' 3 = None \<and> map_of h' 2 = None \<and>
          map_of h' 1 = map_of save_heap 1 \<and> map_of h' 0 = map_of save_heap 0) \<and>
   path save_heap_shared (Some 3) ([3] @ 2 # 1 # [0]) \<and>
   (\<exists>h'. cogl_matrix_stack_pop save_heap_shared
            \<lparr>ctx = \<lparr>identity_entry = 0\<rparr>, last_entry = Some 3\<rparr> =
            Some (h', \<lparr>ctx = \<lparr>identity_entry = 0\<rparr>, last_entry = Some 1\<rparr>) \<and>
          map_of h' 3 = Some \<lparr>parent = Some 2, op = OP_SCALE 2 2 2, ref_count = 1\<rparr> \<and>
          map_of h' 2 = map_of save_heap_shared 2 \<and>
          map_of h' 1 = Some \<lparr>parent = Some 0, op = OP_TRANSLATE (1, 2, 3), ref_count = 2\<rparr> \<and>
          map_of h' 0 = map_of save_heap_shared 0)"
  using pop_releases_removed_nodes [where h = save_heap and seg = "[3]" and s = 2 and t = 1
      and rest = "[0]" and freed = "[3, 2]" and kept = "[]"
      and es = "\<lparr>parent = Some 1, op = OP_SAVE [] False, ref_count = 1\<rparr>"
      and et = "\<lparr>parent = Some 0, op = OP_TRANSLATE (1, 2, 3), ref_count = 1\<rparr>"
      and stack = "\<lparr>ctx = \<lparr>identity_entry = 0\<rparr>, last_entry = Some 3\<rparr>"]
    pop_releases_removed_nodes [where h = save_heap_shared and seg = "[3]" and s = 2 and t = 1
      and rest = "[0]" and freed = "[]" and kept = "[3, 2]"
      and es = "\<lparr>parent = Some 1, op = OP_SAVE [] False, ref_count = 1\<rparr>"
      and et = "\<lparr>parent = Some 0, op = OP_TRANSLATE (1, 2, 3), ref_count = 1\<rparr>"
      and stack = "\<lparr>ctx = \<lparr>identity_entry = 0\<rparr>, last_entry = Some 3\<rparr>"]
  by (auto simp: save_heap_def save_heap_shared_def chain_ops_def map_filter_simps
      dropped_reference_def restrict_map_def)

text \<open>
  C6.  \<^verbatim>\<open>cogl_matrix_stack_load_identity\<close> and \<^verbatim>\<open>cogl_matrix_stack_set\<close> return; they move
  the top to the nearest Save entry, or to the root when there is none (the entry \<open>b\<close>),
  let the stack drop its reference to the old top, and push the new entry on \<open>b\<close>.  The
  entries \<open>seg\<close> from the old top up to \<open>b\<close>, \<open>b\<close> excluded, are freed as far as the stack
  alone owned them (all of them when none has another owner); the first one with another
  owner loses one count.  The new entry is written at the chunk the allocator returns
  for the pruned heap, which may be one of the chunks just freed.
\<close>

theorem replacing_operations_prune:
  assumes "path h (last_entry stack) (seg @ b # rest)"
    and "\<forall>x\<in>set (chain_ops h seg). \<not> is_save x"
    and "map_of h b = Some eb" and "is_save (op eb) \<or> rest = []"
    and "ref_count eb \<noteq> 0"
    and "seg = freed @ kept"
    and "\<forall>a\<in>set freed. map_option ref_count (map_of h a) = Some 1"
    and "kept \<noteq> [] \<longrightarrow> map_option ref_count (map_of h (hd kept)) \<noteq> Some 1"
  shows "\<exists>h2 r1 r2. map_of h2 = dropped_reference (map_of h) b freed kept \<and>
           cogl_matrix_stack_load_identity E h stack = Some r1 \<and>
           pushed E h2 (stack\<lparr>last_entry := Some b\<rparr>) OP_LOAD_IDENTITY r1 \<and>
           cogl_matrix_stack_set E h stack matrix = Some r2 \<and>
           pushed E h2 (stack\<lparr>last_entry := Some b\<rparr>) (OP_LOAD matrix) r2"
proof -
  have dist: "distinct (seg @ b # rest)"
    using assms(1) by (rule path_distinct)
  have seg: "segment h (last_entry stack) seg (Some b)" and par: "path h (parent eb) rest"
    using assms(1,3) by (auto simp: segment_append split: option.splits)
  have stop: "is_save (op eb) \<or> parent eb = None"
    using assms(4) par by auto
  have seg2: "segment h (last_entry stack) (freed @ kept) (Some b)"
    using seg assms(6) by simp
  have dist2: "distinct (freed @ kept @ [b])"
    using dist assms(6) by auto
  have ops: "\<forall>x\<in>set (chain_ops h (freed @ kept)). \<not> is_save x"
    using assms(2,6) by simp
  from push_replacement_entry_result [OF seg2 dist2 ops assms(3) stop assms(5,7,8), of E]
  obtain h2 where "map_of h2 = dropped_reference (map_of h) b freed kept"
    "\<And>operation. cogl_matrix_stack_push_replacement_entry E h stack operation =
        Some (cogl_matrix_stack_push_operation E h2 (stack\<lparr>last_entry := Some b\<rparr>) operation)"
    by blast
  then show ?thesis
    using push_operation_pushed
    unfolding cogl_matrix_stack_load_identity_def cogl_matrix_stack_set_def
    by blast
qed

theorem replacing_operations_prune_witness:
  "path two_translates_heap (Some 2) ([2, 1] @ 0 # []) \<and>
   (\<exists>h2 r1 r2.
      map_of h2 = dropped_reference (map_of two_translates_heap) 0 [2, 1] [] \<and>
      cogl_matrix_stack_load_identity word_env two_translates_heap
        \<lparr>ctx = \<lparr>identity_entry = 0\<rparr>, last_entry = Some 2\<rparr> = Some r1 \<and>
      pushed word_env h2 \<lparr>ctx = \<lparr>identity_entry = 0\<rparr>, last_entry = Some 0\<rparr>
        OP_LOAD_IDENTITY r1 \<and>
      cogl_matrix_stack_set word_env two_translates_heap
        \<lparr>ctx = \<lparr>identity_entry = 0\<rparr>, last_entry = Some 2\<rparr> [L_SCALE 2 2 2] = Some r2 \<and>
      pushed word_env h2 \<lparr>ctx = \<lparr>identity_entry = 0\<rparr>, last_entry = Some 0\<rparr>
        (OP_LOAD [L_SCALE 2 2 2]) r2) \<and>
   dropped_reference (map_of two_translates_heap) 0 [2, 1] [] 2 = None \<and>
   dropped_reference (map_of two_translates_heap) 0 [2, 1] [] 1 = None \<and>
   dropped_reference (map_of two_translates_heap) 0 [2, 1] [] 0 = map_of two_translates_heap 0 \<and>
   cogl_matrix_stack_load_identity word_env two_translates_heap
     \<lparr>ctx = \<lparr>identity_entry = 0\<rparr>, last_entry = Some 2\<rparr> =
     Some ([(0, \<lparr>parent = None, op = OP_LOAD_IDENTITY, ref_count = 2\<rparr>),
            (1, \<lparr>parent = Some 0, op = OP_LOAD_IDENTITY, ref_count = 1\<rparr>)],
           \<lparr>ctx = \<lparr>identity_entry = 0\<rparr>, last_entry = Some 1\<rparr>)"
proof -
  have run: "cogl_matrix_stack_load_identity word_env two_translates_heap
     \<lparr>ctx = \<lparr>identity_entry = 0\<rparr>, last_entry = Some 2\<rparr> =
     Some ([(0, \<lparr>parent = None, op = OP_LOAD_IDENTITY, ref_count = 2\<rparr>),
            (1, \<lparr>parent = Some 0, op = OP_LOAD_IDENTITY, ref_count = 1\<rparr>)],
           \<lparr>ctx = \<lparr>identity_entry = 0\<rparr>, last_entry = Some 1\<rparr>)"
    by (simp add: cogl_matrix_stack_load_identity_def
        cogl_matrix_stack_push_replacement_entry_def push_replacement_entry_loop.simps
        cogl_matrix_entry_ref_def cogl_matrix_stack_push_operation_def
        cogl_matrix_entry_new_def cogl_matrix_stack_push_entry_def two_translates_heap_def
        word_env_def first_free_def)
  have chain: "path two_translates_heap (Some 2) ([2, 1] @ 0 # [])"
    by (simp add: two_translates_heap_def)
  have maps: "dropped_reference (map_of two_translates_heap) 0 [2, 1] [] 2 = None"
    "dropped_reference (map_of two_translates_heap) 0 [2, 1] [] 1 = None"
    "dropped_reference (map_of two_translates_heap) 0 [2, 1] [] 0 = map_of two_translates_heap 0"
    by (simp_all add: dropped_reference_def restrict_map_def)
  have "\<exists>h2 r1 r2.
      map_of h2 = dropped_reference (map_of two_translates_heap) 0 [2, 1] [] \<and>
      cogl_matrix_stack_load_identity word_env two_translates_heap
        \<lparr>ctx = \<lparr>identity_entry = 0\<rparr>, last_entry = Some 2\<rparr> = Some r1 \<and>
      pushed word_env h2 \<lparr>ctx = \<lparr>identity_entry = 0\<rparr>, last_entry = Some 0\<rparr>
        OP_LOAD_IDENTITY r1 \<and>
      cogl_matrix_stack_set word_env two_translates_heap
        \<lparr>ctx = \<lparr>identity_entry = 0\<rparr>, last_entry = Some 2\<rparr> [L_SCALE 2 2 2] = Some r2 \<and>
      pushed word_env h2 \<lparr>ctx = \<lparr>identity_entry = 0\<rparr>, last_entry = Some 0\<rparr>
        (OP_LOAD [L_SCALE 2 2 2]) r2"
    using replacing_operations_prune [where h = two_translates_heap and seg = "[2, 1]"
        and b = 0 and rest = "[]" and freed = "[2, 1]" and kept = "[]" and E = word_env
        and eb = "\<lparr>parent = None, op = OP_LOAD_IDENTITY, ref_count = 2\<rparr>"
        and stack = "\<lparr>ctx = \<lparr>identity_entry = 0\<rparr>, last_entry = Some 2\<rparr>"
        and matrix = "[L_SCALE 2 2 2]"]
    by (simp add: two_translates_heap_def chain_ops_def map_filter_simps)
  then show ?thesis
    using run chain maps by blast
qed

section \<open>The push/pop law\<close>

lemma push_operation_result:
  "cogl_matrix_stack_push_operation E h stack operation = (h', stack') \<Longrightarrow>
   stack' = stack\<lparr>last_entry := Some (magazine_chunk_alloc E h)\<rparr> \<and>
   map_of h' = (map_of h)(magazine_chunk_alloc E h \<mapsto>
                  \<lparr>parent = last_entry stack, op = operation, ref_count = 1\<rparr>)"
  by (auto simp: cogl_matrix_stack_push_operation_def cogl_matrix_entry_new_def
      cogl_matrix_stack_push_entry_def Let_def map_of_map_entry update_conv')

lemma chain_ops_owned:
  assumes "\<forall>a\<in>set ys. owned_node h a"
  shows "\<forall>x\<in>set (chain_ops h ys). \<not> is_save x"
  using assms
  by (induction ys) (auto simp: chain_ops_def map_filter_simps owned_node_def split: option.splits)

lemma above_save_push:
  assumes "map_of h0 (magazine_chunk_alloc E h0) = None"
  shows "above_save h0 stack0 (magazine_chunk_alloc E h0) []
           (cogl_matrix_stack_push E h0 stack0)"
proof -
  obtain h' stack' where r: "cogl_matrix_stack_push_operation E h0 stack0
      (OP_SAVE (uninitialized_matrix E) False) = (h', stack')"
    by (cases "cogl_matrix_stack_push_operation E h0 stack0
      (OP_SAVE (uninitialized_matrix E) False)")
  from push_operation_result [OF r] show ?thesis
    using assms r by (simp add: above_save_def cogl_matrix_stack_push_def)
qed

lemma above_save_append:
  assumes "above_save h0 stack0 s ys (h, stack)"
    and "map_of h (magazine_chunk_alloc E h) = None"
    and "\<not> is_save operation"
  shows "above_save h0 stack0 s (magazine_chunk_alloc E h # ys)
           (cogl_matrix_stack_push_operation E h stack operation)"
proof -
  let ?n = "magazine_chunk_alloc E h"
  obtain h' stack' where r: "cogl_matrix_stack_push_operation E h stack operation = (h', stack')"
    by (cases "cogl_matrix_stack_push_operation E h stack operation")
  note res = push_operation_result [OF r]
  have inv: "stack = stack0\<lparr>last_entry := last_entry stack\<rparr>"
    "segment h (last_entry stack) ys (Some s)" "distinct (ys @ [s])"
    "\<forall>a\<in>set ys. owned_node h a" "\<forall>a\<in>set (s # ys). map_of h0 a = None"
    "\<exists>e. map_of h s = Some e \<and> is_save (op e) \<and> ref_count e = 1 \<and>
         parent e = last_entry stack0"
    "\<forall>a. a \<notin> set (s # ys) \<longrightarrow> map_of h a = map_of h0 a"
    using assms(1) by (auto simp: above_save_def)
  have n: "?n \<notin> set ys" "?n \<noteq> s"
    using assms(2) inv(4,6) by (auto simp: owned_node_def split: option.splits)
  have same: "\<forall>a\<in>set ys. map_of h' a = map_of h a"
    using res n by auto
  have 1: "stack' = stack0\<lparr>last_entry := last_entry stack'\<rparr>"
    using res inv(1) by (metis matrix_stack.select_convs(2) matrix_stack.surjective
        matrix_stack.update_convs(2))
  have 2: "segment h' (last_entry stack') (?n # ys) (Some s)"
    using res inv(2) segment_cong [OF same] by simp
  have 3: "distinct ((?n # ys) @ [s])"
    using inv(3) n by simp
  have 4: "\<forall>a\<in>set (?n # ys). owned_node h' a"
    using res inv(4) n assms(3) by (auto simp: owned_node_def)
  have "map_of h0 ?n = None"
    using inv(7) n assms(2) by auto
  then have 5: "\<forall>a\<in>set (s # ?n # ys). map_of h0 a = None"
    using inv(5) by simp
  have 6: "\<exists>e. map_of h' s = Some e \<and> is_save (op e) \<and> ref_count e = 1 \<and>
         parent e = last_entry stack0"
    using res inv(6) n by simp
  have 7: "\<forall>a. a \<notin> set (s # ?n # ys) \<longrightarrow> map_of h' a = map_of h0 a"
    using res inv(7) by simp
  show ?thesis
    using 1 2 3 4 5 6 7 by (simp add: above_save_def r)
qed

lemma above_save_replace:
  assumes "above_save h0 stack0 s ys (h, stack)"
    and "\<forall>h. map_of h (magazine_chunk_alloc E h) = None"
    and "\<not> is_save operation"
  shows "\<exists>r n. cogl_matrix_stack_push_replacement_entry E h stack operation = Some r \<and>
           above_save h0 stack0 s [n] r"
proof -
  have inv: "stack = stack0\<lparr>last_entry := last_entry stack\<rparr>"
    "segment h (last_entry stack) ys (Some s)" "distinct (ys @ [s])"
    "\<forall>a\<in>set ys. owned_node h a" "\<forall>a\<in>set (s # ys). map_of h0 a = None"
    "\<forall>a. a \<notin> set (s # ys) \<longrightarrow> map_of h a = map_of h0 a"
    using assms(1) by (auto simp: above_save_def)
  obtain es where es: "map_of h s = Some es" "is_save (op es)" "ref_count es = 1"
    "parent es = last_entry stack0"
    using assms(1) by (auto simp: above_save_def)
  have one: "\<forall>a\<in>set ys. map_option ref_count (map_of h a) = Some 1"
    using inv(4) by (auto simp: owned_node_def split: option.splits)
  have "\<exists>h2. map_of h2 = dropped_reference (map_of h) s ys [] \<and>
           (\<forall>operation. cogl_matrix_stack_push_replacement_entry E h stack operation =
              Some (cogl_matrix_stack_push_operation E h2
                      (stack\<lparr>last_entry := Some s\<rparr>) operation))"
    by (rule push_replacement_entry_result [where kept = "[]" and eb = es])
       (use inv es one chain_ops_owned [OF inv(4)] in auto)
  then obtain h2 where h2: "map_of h2 = map_of h |` (- set ys)"
    and run: "cogl_matrix_stack_push_replacement_entry E h stack operation =
      Some (cogl_matrix_stack_push_operation E h2 (stack\<lparr>last_entry := Some s\<rparr>) operation)"
    by (auto simp: dropped_reference_def)
  let ?n = "magazine_chunk_alloc E h2"
  obtain h' stack' where r: "cogl_matrix_stack_push_operation E h2
      (stack\<lparr>last_entry := Some s\<rparr>) operation = (h', stack')"
    by (cases "cogl_matrix_stack_push_operation E h2 (stack\<lparr>last_entry := Some s\<rparr>) operation")
  note res = push_operation_result [OF r]
  have fresh: "map_of h2 ?n = None"
    using assms(2) by simp
  have s2: "map_of h2 s = Some es"
    using h2 es(1) inv(3) by (simp add: restrict_map_def)
  have n: "?n \<noteq> s"
    using fresh s2 by auto
  have 1: "stack' = stack0\<lparr>last_entry := last_entry stack'\<rparr>"
    using res inv(1) by (metis matrix_stack.select_convs(2) matrix_stack.surjective
        matrix_stack.update_convs(2))
  have 2: "segment h' (last_entry stack') [?n] (Some s)"
    using res by simp
  have 4: "owned_node h' ?n"
    using res assms(3) by (simp add: owned_node_def)
  have "map_of h0 ?n = None"
  proof (cases "?n \<in> set ys")
    case True
    then show ?thesis using inv(5) by simp
  next
    case False
    then have "map_of h ?n = None"
      using fresh h2 by (simp add: restrict_map_def)
    then show ?thesis using inv(6) False n by auto
  qed
  then have 5: "\<forall>a\<in>set [s, ?n]. map_of h0 a = None"
    using inv(5) by simp
  have 6: "\<exists>e. map_of h' s = Some e \<and> is_save (op e) \<and> ref_count e = 1 \<and>
         parent e = last_entry stack0"
    using res s2 es n by simp
  have 7: "map_of h' a = map_of h0 a" if "a \<noteq> s" "a \<noteq> ?n" for a
  proof (cases "a \<in> set ys")
    case True
    then show ?thesis using res h2 that inv(5) by (simp add: restrict_map_def)
  next
    case False
    then show ?thesis using res h2 that inv(6) by (simp add: restrict_map_def)
  qed
  have "above_save h0 stack0 s [?n] (h', stack')"
    using 1 2 n 4 5 6 7 by (simp add: above_save_def)
  then show ?thesis
    using run r by auto
qed

lemma above_save_mutate:
  assumes "above_save h0 stack0 s ys hs"
    and "\<forall>h. map_of h (magazine_chunk_alloc E h) = None"
  shows "\<exists>hs' ys'. mutate E hs m = Some hs' \<and> above_save h0 stack0 s ys' hs'"
proof -
  obtain h stack where hs: "hs = (h, stack)"
    by (cases hs)
  have app: "\<exists>ys'. above_save h0 stack0 s ys'
      (cogl_matrix_stack_push_operation E h stack operation)"
    if "\<not> is_save operation" for operation
  proof -
    have "map_of h (magazine_chunk_alloc E h) = None"
      using assms(2) by simp
    from above_save_append [OF assms(1) [unfolded hs] this that] show ?thesis ..
  qed
  have rep: "\<exists>r ys'. cogl_matrix_stack_push_replacement_entry E h stack operation = Some r \<and>
      above_save h0 stack0 s ys' r"
    if "\<not> is_save operation" for operation
  proof -
    from above_save_replace [OF assms(1) [unfolded hs] assms(2) that]
    obtain r n where "cogl_matrix_stack_push_replacement_entry E h stack operation = Some r"
      "above_save h0 stack0 s [n] r"
      by blast
    then show ?thesis by blast
  qed
  show ?thesis
  proof (cases m)
    case (M_TRANSLATE x y z)
    then show ?thesis
      using app [of "OP_TRANSLATE (x, y, z)"] hs by (simp add: cogl_matrix_stack_translate_def)
  next
    case (M_ROTATE angle x y z)
    then show ?thesis
      using app [of "OP_ROTATE angle (x, y, z)"] hs by (simp add: cogl_matrix_stack_rotate_def)
  next
    case (M_ROTATE_EULER euler)
    then show ?thesis
      using app [of "OP_ROTATE_EULER euler"] hs
      by (simp add: cogl_matrix_stack_rotate_euler_def)
  next
    case (M_SCALE x y z)
    then show ?thesis
      using app [of "OP_SCALE x y z"] hs by (simp add: cogl_matrix_stack_scale_def)
  next
    case (M_MULTIPLY matrix)
    then show ?thesis
      using app [of "OP_MULTIPLY matrix"] hs by (simp add: cogl_matrix_stack_multiply_def)
  next
    case M_LOAD_IDENTITY
    then show ?thesis
      using rep [of OP_LOAD_IDENTITY] hs by (simp add: cogl_matrix_stack_load_identity_def)
  next
    case (M_SET matrix)
    then show ?thesis
      using rep [of "OP_LOAD matrix"] hs by (simp add: cogl_matrix_stack_set_def)
  qed
qed

lemma above_save_mutate_all:
  assumes "above_save h0 stack0 s ys hs"
    and "\<forall>h. map_of h (magazine_chunk_alloc E h) = None"
  shows "\<exists>hs' ys'. mutate_all E hs ms = Some hs' \<and> above_save h0 stack0 s ys' hs'"
  using assms(1)
proof (induction ms arbitrary: hs ys)
  case Nil
  then show ?case by auto
next
  case (Cons m ms)
  from above_save_mutate [OF Cons.prems assms(2), of m]
  obtain hs1 ys1 where "mutate E hs m = Some hs1" "above_save h0 stack0 s ys1 hs1"
    by blast
  then show ?case
    using Cons.IH [of ys1 hs1] by simp
qed

lemma above_save_pop:
  assumes "above_save h0 stack0 s ys (h, stack)"
    and "last_entry stack0 = Some t" and "map_of h0 t = Some et" and "ref_count et \<noteq> 0"
  shows "\<exists>h'. cogl_matrix_stack_pop h stack = Some (h', stack0) \<and> map_of h' = map_of h0"
proof -
  have inv: "stack = stack0\<lparr>last_entry := last_entry stack\<rparr>"
    "segment h (last_entry stack) ys (Some s)" "distinct (ys @ [s])"
    "\<forall>a\<in>set ys. owned_node h a" "\<forall>a\<in>set (s # ys). map_of h0 a = None"
    "\<forall>a. a \<notin> set (s # ys) \<longrightarrow> map_of h a = map_of h0 a"
    using assms(1) by (auto simp: above_save_def)
  obtain es where es: "map_of h s = Some es" "is_save (op es)" "ref_count es = 1"
    "parent es = Some t"
    using assms(1,2) by (auto simp: above_save_def)
  have t: "t \<notin> set (s # ys)"
    using inv(5) assms(3) by auto
  then have et: "map_of h t = Some et"
    using inv(6) assms(3) by simp
  have one: "\<forall>a\<in>set (ys @ [s]). map_option ref_count (map_of h a) = Some 1"
    using inv(4) es by (auto simp: owned_node_def split: option.splits)
  have seg: "segment h (last_entry stack) (ys @ [s]) (Some t)"
    using inv(2) es by (auto simp: segment_append)
  have dist: "distinct (ys @ [s] @ [t])"
    using inv(3) t by auto
  have "\<exists>h'. cogl_matrix_stack_pop h stack = Some (h', stack\<lparr>last_entry := Some t\<rparr>) \<and>
           map_of h' = dropped_reference (map_of h) t (ys @ [s]) []"
    by (rule pop_result [OF seg dist chain_ops_owned [OF inv(4)] es(1,2) et assms(4) _ one])
       simp_all
  then obtain h' where pop: "cogl_matrix_stack_pop h stack =
      Some (h', stack\<lparr>last_entry := Some t\<rparr>)"
    and h': "map_of h' = map_of h |` (- set (ys @ [s]))"
    by (auto simp: dropped_reference_def)
  have "stack\<lparr>last_entry := Some t\<rparr> = stack0"
    using inv(1) assms(2) by (metis matrix_stack.surjective matrix_stack.update_convs(2)
        matrix_stack.select_convs(2))
  moreover have "map_of h' = map_of h0"
  proof
    fix a show "map_of h' a = map_of h0 a"
      using h' inv(5,6) by (cases "a \<in> set (s # ys)") (auto simp: restrict_map_def)
  qed
  ultimately show ?thesis
    using pop by simp
qed

lemma push_mutate_pop_restores:
  assumes "\<forall>h. map_of h (magazine_chunk_alloc E h) = None"
    and "last_entry stack = Some t" and "map_of h t = Some et" and "ref_count et \<noteq> 0"
  shows "\<exists>h'. push_mutate_pop E h stack ms = Some (h', stack) \<and> map_of h' = map_of h"
proof -
  have "above_save h stack (magazine_chunk_alloc E h) [] (cogl_matrix_stack_push E h stack)"
    using assms(1) by (intro above_save_push) simp
  from above_save_mutate_all [OF this assms(1), of ms]
  obtain h2 stack2 ys where run: "mutate_all E (cogl_matrix_stack_push E h stack) ms =
      Some (h2, stack2)"
    and inv: "above_save h stack (magazine_chunk_alloc E h) ys (h2, stack2)"
    by auto
  from above_save_pop [OF inv assms(2,3,4)] show ?thesis
    using run by (simp add: push_mutate_pop_def)
qed

lemma foldr_max_ge: "a \<in> set xs \<Longrightarrow> a \<le> foldr max xs (0::nat)"
  by (induction xs) auto

lemma first_free_fresh: "map_of h (first_free h) = None"
proof -
  have "Suc (foldr max (map fst h) 0) \<notin> set (map fst h)"
    using foldr_max_ge [of "Suc (foldr max (map fst h) 0)" "map fst h"] by auto
  then show ?thesis
    by (simp add: first_free_def map_of_eq_None_iff)
qed

text \<open>
  C2.  With an allocator that never returns a live chunk, on a stack whose top has a
  nonzero count and whose chain does not end in a Save entry: for every list \<open>ms\<close> of
  translate, rotate, rotate_euler, scale, multiply, load_identity and set operations,
  \<^verbatim>\<open>push(); ms; pop()\<close> returns, the stack is the stack before (its top is the same
  entry), every chunk of the heap holds what it held before, \<^verbatim>\<open>cogl_matrix_stack_get\<close>
  gives the same matrix before and after, and the top is equal to itself by
  \<^verbatim>\<open>cogl_matrix_entry_equal\<close>.
\<close>

theorem push_pop_identity:
  assumes "\<forall>h. map_of h (magazine_chunk_alloc E h) = None"
    and "path h (last_entry stack) (t # rest)"
    and "map_of h t = Some et" and "ref_count et \<noteq> 0"
    and "\<not> is_save (last (chain_ops h (t # rest)))"
  shows "\<exists>h' h1 h2 m r1 r2.
           push_mutate_pop E h stack ms = Some (h', stack) \<and> map_of h' = map_of h \<and>
           cogl_matrix_stack_get E h stack = Some (h1, m, r1) \<and>
           cogl_matrix_stack_get E h' stack = Some (h2, m, r2) \<and>
           cogl_matrix_entry_equal E h' (last_entry stack) (last_entry stack) = Some True"
proof -
  have top: "last_entry stack = Some t"
    using assms(2) by simp
  obtain h' where run: "push_mutate_pop E h stack ms = Some (h', stack)"
    and same: "map_of h' = map_of h"
    using push_mutate_pop_restores [OF assms(1) top assms(3,4)] by blast
  have p': "path h' (last_entry stack) (t # rest)"
    and ops: "chain_ops h' (t # rest) = chain_ops h (t # rest)"
    using assms(2) segment_cong [of "t # rest" h' h] chain_ops_cong [of "t # rest" h' h] same
    by auto
  obtain h1 where g1: "cogl_matrix_stack_get E h stack =
      Some (h1, composite E (chain_ops h (t # rest)) (graphene_matrix_init_identity E),
            returned_matrix E (chain_ops h (t # rest)))"
    using entry_get_returns [OF assms(2), of E] assms(5)
    by (auto simp: cogl_matrix_stack_get_def)
  obtain h2 where g2: "cogl_matrix_stack_get E h' stack =
      Some (h2, composite E (chain_ops h (t # rest)) (graphene_matrix_init_identity E),
            returned_matrix E (chain_ops h (t # rest)))"
    using entry_get_returns [OF p', of E] assms(5) ops
    by (auto simp: cogl_matrix_stack_get_def)
  obtain s' where s': "cogl_matrix_entry_skip_saves h' t = Some s'"
    using skip_saves_chain [of h' t "t # rest"] p' ops assms(5) top by auto
  have "cogl_matrix_entry_equal E h' (last_entry stack) (last_entry stack) = Some True"
    using entry_equal_same [OF s' s'] top by simp
  then show ?thesis
    using run same g1 g2 by blast
qed

theorem push_pop_identity_witness:
  "(\<forall>h. map_of h (magazine_chunk_alloc word_env h) = None) \<and>
   path translate_scale_heap (Some 2) (2 # [1, 0]) \<and>
   push_mutate_pop word_env translate_scale_heap
     \<lparr>ctx = \<lparr>identity_entry = 0\<rparr>, last_entry = Some 2\<rparr>
     [M_TRANSLATE 1 0 0, M_LOAD_IDENTITY, M_SCALE 3 3 3] =
     Some (translate_scale_heap, \<lparr>ctx = \<lparr>identity_entry = 0\<rparr>, last_entry = Some 2\<rparr>) \<and>
   (\<exists>h' h1 h2 m r1 r2.
      push_mutate_pop word_env translate_scale_heap
        \<lparr>ctx = \<lparr>identity_entry = 0\<rparr>, last_entry = Some 2\<rparr>
        [M_TRANSLATE 1 0 0, M_LOAD_IDENTITY, M_SCALE 3 3 3] =
        Some (h', \<lparr>ctx = \<lparr>identity_entry = 0\<rparr>, last_entry = Some 2\<rparr>) \<and>
      map_of h' = map_of translate_scale_heap \<and>
      cogl_matrix_stack_get word_env translate_scale_heap
        \<lparr>ctx = \<lparr>identity_entry = 0\<rparr>, last_entry = Some 2\<rparr> = Some (h1, m, r1) \<and>
      cogl_matrix_stack_get word_env h'
        \<lparr>ctx = \<lparr>identity_entry = 0\<rparr>, last_entry = Some 2\<rparr> = Some (h2, m, r2) \<and>
      cogl_matrix_entry_equal word_env h' (Some 2) (Some 2) = Some True)"
proof -
  have fresh: "\<forall>h. map_of h (magazine_chunk_alloc word_env h) = None"
    using first_free_fresh by (simp add: word_env_def)
  have chain: "path translate_scale_heap (Some 2) (2 # [1, 0])"
    "\<not> is_save (last (chain_ops translate_scale_heap (2 # [1, 0])))"
    "map_of translate_scale_heap 2 =
       Some \<lparr>parent = Some 1, op = OP_SCALE 2 2 2, ref_count = 1\<rparr>"
    by (simp_all add: translate_scale_heap_def chain_ops_def map_filter_simps)
  have run: "push_mutate_pop word_env translate_scale_heap
     \<lparr>ctx = \<lparr>identity_entry = 0\<rparr>, last_entry = Some 2\<rparr>
     [M_TRANSLATE 1 0 0, M_LOAD_IDENTITY, M_SCALE 3 3 3] =
     Some (translate_scale_heap, \<lparr>ctx = \<lparr>identity_entry = 0\<rparr>, last_entry = Some 2\<rparr>)"
    by (simp add: push_mutate_pop_def cogl_matrix_stack_push_def cogl_matrix_stack_translate_def
        cogl_matrix_stack_scale_def cogl_matrix_stack_load_identity_def
        cogl_matrix_stack_push_replacement_entry_def push_replacement_entry_loop.simps
        cogl_matrix_entry_ref_def cogl_matrix_stack_push_operation_def
        cogl_matrix_entry_new_def cogl_matrix_stack_push_entry_def translate_scale_heap_def
        cogl_matrix_stack_pop_def pop_loop.simps word_env_def first_free_def)
  show ?thesis
    using fresh chain(1) run
      push_pop_identity [where E = word_env and h = translate_scale_heap and t = 2
        and rest = "[1, 0]" and stack = "\<lparr>ctx = \<lparr>identity_entry = 0\<rparr>, last_entry = Some 2\<rparr>"
        and et = "\<lparr>parent = Some 1, op = OP_SCALE 2 2 2, ref_count = 1\<rparr>"
        and ms = "[M_TRANSLATE 1 0 0, M_LOAD_IDENTITY, M_SCALE 3 3 3]", OF fresh _ chain(3) _
        chain(2)]
    by simp
qed

section \<open>Relative translation\<close>

lemma translation_walk_chain:
  "path h p xs \<Longrightarrow>
   translation_walk h p head = Some (rev (walk_nodes (chain_nodes h xs)) @ head)"
proof (induction xs arbitrary: p head)
  case Nil
  then show ?case by (subst translation_walk.simps) simp
next
  case (Cons a as)
  then obtain e where p: "p = Some a" and e: "map_of h a = Some e"
    and s: "path h (parent e) as"
    by (auto split: option.splits)
  show ?case
    using p e Cons.IH [OF s]
    by (subst translation_walk.simps) (simp add: chain_nodes_Cons)
qed

lemma chain_nodes_lookup:
  "(a, x) \<in> set (chain_nodes h xs) \<Longrightarrow> \<exists>e. map_of h a = Some e \<and> op e = x"
  by (induction xs)
     (auto simp: chain_nodes_def map_filter_simps split: option.splits if_splits)

lemma chain_nodes_subset: "fst ` set (chain_nodes h xs) \<subseteq> set xs"
  by (induction xs)
     (auto simp: chain_nodes_def map_filter_simps split: option.splits if_splits)

lemma chain_nodes_distinct:
  "distinct xs \<Longrightarrow> distinct (map fst (chain_nodes h xs))"
proof (induction xs)
  case Nil
  then show ?case by simp
next
  case (Cons a as)
  have "a \<notin> fst ` set (chain_nodes h as)"
    using Cons.prems chain_nodes_subset [of h as] by auto
  then show ?case
    using Cons
    by (cases "map_of h a") (auto simp: chain_nodes_def map_filter_simps)
qed

lemma translation_subtract_all:
  assumes "\<forall>n\<in>set ns. is_translate (snd n) \<and> (\<exists>e. map_of h (fst n) = Some e \<and> op e = snd n)"
  shows "translation_subtract h acc (map fst ns) =
           Some (Some (foldl point_sub acc (node_translations ns)))"
  using assms
proof (induction ns arbitrary: acc)
  case Nil
  then show ?case by (simp add: node_translations_def map_filter_simps)
next
  case (Cons n ns)
  obtain a x where n: "n = (a, x)" by (cases n)
  obtain p where x: "x = OP_TRANSLATE p"
    using Cons.prems n by (cases x) auto
  obtain e where e: "map_of h a = Some e" "op e = OP_TRANSLATE p"
    using Cons.prems n x by auto
  obtain ax ay az where acc: "acc = (ax, ay, az)" by (cases acc)
  obtain tx ty tz where p: "p = (tx, ty, tz)" by (cases p)
  have "translation_subtract h acc (map fst (n # ns)) =
        translation_subtract h (point_sub acc p) (map fst ns)"
    using n e acc p by simp
  then show ?case
    using Cons.IH [of "point_sub acc p"] Cons.prems n x
    by (simp add: node_translations_def map_filter_simps)
qed

lemma translation_add_all:
  assumes "\<forall>n\<in>set ns. is_translate (snd n) \<and> (\<exists>e. map_of h (fst n) = Some e \<and> op e = snd n)"
  shows "translation_add h acc (map fst ns) =
           Some (Some (foldl point_add acc (node_translations ns)))"
  using assms
proof (induction ns arbitrary: acc)
  case Nil
  then show ?case by (simp add: node_translations_def map_filter_simps)
next
  case (Cons n ns)
  obtain a x where n: "n = (a, x)" by (cases n)
  obtain p where x: "x = OP_TRANSLATE p"
    using Cons.prems n by (cases x) auto
  obtain e where e: "map_of h a = Some e" "op e = OP_TRANSLATE p"
    using Cons.prems n x by auto
  obtain ax ay az where acc: "acc = (ax, ay, az)" by (cases acc)
  obtain tx ty tz where p: "p = (tx, ty, tz)" by (cases p)
  have "translation_add h acc (map fst (n # ns)) =
        translation_add h (point_add acc p) (map fst ns)"
    using n e acc p by simp
  then show ?case
    using Cons.IH [of "point_add acc p"] Cons.prems n x
    by (simp add: node_translations_def map_filter_simps)
qed

lemma common_ancestor_loop_prefix:
  "common_ancestor_loop (length xs + k) (xs @ ys) (xs @ zs) = common_ancestor_loop k ys zs"
  by (induction xs) auto

lemma common_ancestor_loop_stop:
  assumes "ys = [] \<or> zs = [] \<or> hd ys \<noteq> hd zs" and "k \<le> min (length ys) (length zs)"
  shows "common_ancestor_loop k ys zs = Some (ys, zs)"
proof (cases k)
  case 0
  then show ?thesis by simp
next
  case (Suc n)
  then obtain y ys' z zs' where "ys = y # ys'" "zs = z # zs'"
    using assms(2) by (cases ys; cases zs) auto
  then show ?thesis
    using Suc assms(1) by simp
qed

lemma walk_nodes_translates:
  assumes "\<forall>n\<in>set ns. is_translate (snd n)"
  shows "walk_nodes (ns @ ms) = map fst ns @ walk_nodes ms"
  using assms by (induction ns) auto

lemma walk_nodes_last:
  "ns \<noteq> [] \<Longrightarrow> walk_nodes ns \<noteq> [] \<and> last (walk_nodes ns) \<in> fst ` set ns"
proof (induction ns)
  case Nil
  then show ?case by simp
next
  case (Cons n ns)
  obtain a x where n: "n = (a, x)" by (cases n)
  show ?case
  proof (cases "is_translate x \<and> ns \<noteq> []")
    case True
    then show ?thesis using Cons.IH n by auto
  next
    case False
    then show ?thesis using n by (cases ns) auto
  qed
qed

lemma walk_nodes_last_prefix:
  assumes "\<exists>n\<in>set ns. \<not> is_translate (snd n)"
  shows "last (walk_nodes (ns @ ms)) \<in> fst ` set ns"
  using assms
proof (induction ns)
  case Nil
  then show ?case by simp
next
  case (Cons n ns)
  obtain a x where n: "n = (a, x)" by (cases n)
  show ?case
  proof (cases "is_translate x")
    case True
    then have ex: "\<exists>n\<in>set ns. \<not> is_translate (snd n)"
      using Cons.prems n by auto
    then have "ns \<noteq> []" by auto
    then have "walk_nodes (ns @ ms) \<noteq> []"
      using walk_nodes_last [of "ns @ ms"] by simp
    then show ?thesis
      using Cons.IH [OF ex] True n by simp
  next
    case False
    then show ?thesis using n by simp
  qed
qed

lemma calculate_translation_heads:
  assumes "path h entry0 xs0" and "path h entry1 xs1"
  shows "cogl_matrix_entry_calculate_translation h entry0 entry1 =
    (case rev (walk_nodes (chain_nodes h xs0)) of
       [] \<Rightarrow> None
     | d0 # next0 \<Rightarrow>
    (case rev (walk_nodes (chain_nodes h xs1)) of
       [] \<Rightarrow> None
     | d1 # next1 \<Rightarrow>
         if d0 \<noteq> d1 then Some None
         else
           Option.bind
             (common_ancestor_loop
                (min (length (walk_nodes (chain_nodes h xs0)))
                     (length (walk_nodes (chain_nodes h xs1))) - 1) next0 next1)
             (\<lambda>(after0, after1).
                (case translation_subtract h (0, 0, 0) after0 of
                   None \<Rightarrow> None
                 | Some None \<Rightarrow> Some None
                 | Some (Some acc) \<Rightarrow> translation_add h acc after1))))"
proof -
  have w0: "translation_walk h entry0 [] = Some (rev (walk_nodes (chain_nodes h xs0)))"
    using translation_walk_chain [OF assms(1), of "[]"] by simp
  have w1: "translation_walk h entry1 [] = Some (rev (walk_nodes (chain_nodes h xs1)))"
    using translation_walk_chain [OF assms(2), of "[]"] by simp
  show ?thesis
    unfolding cogl_matrix_entry_calculate_translation_def w0 w1
    by (cases "rev (walk_nodes (chain_nodes h xs0))";
        cases "rev (walk_nodes (chain_nodes h xs1))") (simp_all del: rev_is_Nil_conv)
qed

lemma calculate_translation_success:
  assumes "path h entry0 xs0" and "path h entry1 xs1"
    and "chain_nodes h xs0 = N0 @ c # R" and "chain_nodes h xs1 = N1 @ c # R"
    and "\<forall>n\<in>set (N0 @ N1). is_translate (snd n)"
    and "N0 = [] \<or> N1 = [] \<or> fst (last N0) \<noteq> fst (last N1)"
  shows "cogl_matrix_entry_calculate_translation h entry0 entry1 =
           Some (Some (foldl point_add
                         (foldl point_sub (0, 0, 0) (node_translations (rev N0)))
                         (node_translations (rev N1))))"
proof -
  obtain d nx where X: "rev (walk_nodes (c # R)) = d # nx"
    using walk_nodes_last [of "c # R"] by (cases "rev (walk_nodes (c # R))") auto
  have W0: "walk_nodes (chain_nodes h xs0) = map fst N0 @ walk_nodes (c # R)"
    using assms(3,5) by (simp add: walk_nodes_translates)
  have W1: "walk_nodes (chain_nodes h xs1) = map fst N1 @ walk_nodes (c # R)"
    using assms(4,5) by (simp add: walk_nodes_translates)
  have r0: "rev (walk_nodes (chain_nodes h xs0)) = d # (nx @ map fst (rev N0))"
    using W0 X by (simp add: rev_map)
  have r1: "rev (walk_nodes (chain_nodes h xs1)) = d # (nx @ map fst (rev N1))"
    using W1 X by (simp add: rev_map)
  have len: "length (walk_nodes (c # R)) = Suc (length nx)"
    using X by (metis length_Cons length_rev)
  have count: "min (length (walk_nodes (chain_nodes h xs0)))
        (length (walk_nodes (chain_nodes h xs1))) - 1 =
      length nx + min (length N0) (length N1)"
    using W0 W1 len by simp
  have deepest: "map fst (rev N0) = [] \<or> map fst (rev N1) = [] \<or>
      hd (map fst (rev N0)) \<noteq> hd (map fst (rev N1))"
    using assms(6) by (auto simp: hd_map hd_rev)
  have loop: "common_ancestor_loop (length nx + min (length N0) (length N1))
      (nx @ map fst (rev N0)) (nx @ map fst (rev N1)) =
      Some (map fst (rev N0), map fst (rev N1))"
    unfolding common_ancestor_loop_prefix
    by (rule common_ancestor_loop_stop [OF deepest]) simp
  have t0: "\<forall>n\<in>set (rev N0). is_translate (snd n) \<and>
      (\<exists>e. map_of h (fst n) = Some e \<and> op e = snd n)"
    using assms(5) chain_nodes_lookup [of _ _ h xs0] assms(3) by auto
  have t1: "\<forall>n\<in>set (rev N1). is_translate (snd n) \<and>
      (\<exists>e. map_of h (fst n) = Some e \<and> op e = snd n)"
    using assms(5) chain_nodes_lookup [of _ _ h xs1] assms(4) by auto
  show ?thesis
    unfolding calculate_translation_heads [OF assms(1,2)] r0 r1 count
    by (simp add: loop translation_subtract_all [OF t0] translation_add_all [OF t1])
qed

lemma calculate_translation_no_common_head:
  assumes "path h entry0 xs0" and "path h entry1 xs1"
    and "chain_nodes h xs0 \<noteq> []" and "chain_nodes h xs1 \<noteq> []"
    and "last (walk_nodes (chain_nodes h xs0)) \<noteq> last (walk_nodes (chain_nodes h xs1))"
  shows "cogl_matrix_entry_calculate_translation h entry0 entry1 = Some None"
proof -
  let ?W0 = "walk_nodes (chain_nodes h xs0)" and ?W1 = "walk_nodes (chain_nodes h xs1)"
  have "?W0 \<noteq> []" "?W1 \<noteq> []"
    using walk_nodes_last assms(3,4) by blast+
  then obtain nx0 nx1 where r: "rev ?W0 = last ?W0 # nx0" "rev ?W1 = last ?W1 # nx1"
    by (metis rev.simps(2) rev_rev_ident snoc_eq_iff_butlast append_butlast_last_id)
  show ?thesis
    unfolding calculate_translation_heads [OF assms(1,2)] r
    using assms(5) by simp
qed

lemma calculate_translation_interrupted:
  assumes "path h entry0 xs0" and "path h entry1 xs1"
    and "chain_nodes h xs0 = N0 @ c # R" and "chain_nodes h xs1 = N1 @ c # R"
    and "fst ` set N0 \<inter> fst ` set N1 = {}"
    and "\<exists>n\<in>set (N0 @ N1). \<not> is_translate (snd n)"
  shows "cogl_matrix_entry_calculate_translation h entry0 entry1 = Some None"
proof -
  let ?W0 = "walk_nodes (chain_nodes h xs0)" and ?W1 = "walk_nodes (chain_nodes h xs1)"
  have d0: "distinct (map fst (N0 @ c # R))"
    using chain_nodes_distinct [OF path_distinct [OF assms(1)], of h] assms(3) by simp
  have d1: "distinct (map fst (N1 @ c # R))"
    using chain_nodes_distinct [OF path_distinct [OF assms(2)], of h] assms(4) by simp
  have dj0: "fst ` set N0 \<inter> fst ` set (c # R) = {}"
    using d0 unfolding map_append distinct_append set_map by blast
  have dj1: "fst ` set N1 \<inter> fst ` set (c # R) = {}"
    using d1 unfolding map_append distinct_append set_map by blast
  have "chain_nodes h xs0 \<noteq> []" "chain_nodes h xs1 \<noteq> []"
    using assms(3,4) by simp_all
  then have l: "last ?W0 \<in> fst ` set (chain_nodes h xs0)"
    "last ?W1 \<in> fst ` set (chain_nodes h xs1)"
    using walk_nodes_last by blast+
  have in0: "last ?W0 \<in> fst ` set N0 \<union> fst ` set (c # R)"
    using l(1) unfolding assms(3) set_append image_Un .
  have in1: "last ?W1 \<in> fst ` set N1 \<union> fst ` set (c # R)"
    using l(2) unfolding assms(4) set_append image_Un .
  have "last ?W0 \<noteq> last ?W1"
  proof (cases "\<exists>n\<in>set N0. \<not> is_translate (snd n)")
    case True
    have w: "last ?W0 \<in> fst ` set N0"
      unfolding assms(3) by (rule walk_nodes_last_prefix [OF True])
    have "last ?W0 \<notin> fst ` set N1"
      using w assms(5) by (meson disjoint_iff)
    moreover have "last ?W0 \<notin> fst ` set (c # R)"
      using w dj0 by (meson disjoint_iff)
    ultimately show ?thesis
      using in1 by (metis UnE)
  next
    case False
    obtain n where n: "n \<in> set (N0 @ N1)" "\<not> is_translate (snd n)"
      using assms(6) by blast
    then have "n \<in> set N1"
      using False by auto
    then have ex: "\<exists>n\<in>set N1. \<not> is_translate (snd n)"
      using n(2) by blast
    have w: "last ?W1 \<in> fst ` set N1"
      unfolding assms(4) by (rule walk_nodes_last_prefix [OF ex])
    have "last ?W1 \<notin> fst ` set N0"
      using w assms(5) by (meson disjoint_iff)
    moreover have "last ?W1 \<notin> fst ` set (c # R)"
      using w dj1 by (meson disjoint_iff)
    ultimately show ?thesis
      using in0 by (metis UnE)
  qed
  then show ?thesis
    using calculate_translation_no_common_head [OF assms(1,2)] assms(3,4) by simp
qed

lemma foldl_point_add:
  "foldl point_add acc ps = point_add acc (foldl point_add (0, 0, 0) ps)"
  for acc :: "('f::ab_group_add) point3d"
proof (induction ps arbitrary: acc rule: rev_induct)
  case Nil
  then show ?case by (cases acc) simp
next
  case (snoc p ps)
  obtain a b c where "foldl point_add (0, 0, 0) ps = (a, b, c)"
    by (cases "foldl point_add (0::'f, 0::'f, 0::'f) ps")
  then show ?case
    using snoc [of acc] by (cases acc; cases p) (simp add: algebra_simps)
qed

lemma foldl_point_sub:
  "foldl point_sub acc ps = point_sub acc (foldl point_add (0, 0, 0) ps)"
  for acc :: "('f::ab_group_add) point3d"
proof (induction ps arbitrary: acc rule: rev_induct)
  case Nil
  then show ?case by (cases acc) simp
next
  case (snoc p ps)
  obtain a b c where "foldl point_add (0, 0, 0) ps = (a, b, c)"
    by (cases "foldl point_add (0::'f, 0::'f, 0::'f) ps")
  then show ?case
    using snoc [of acc] by (cases acc; cases p) (simp add: algebra_simps)
qed

lemma translation_fold_group:
  "foldl point_add (foldl point_sub (0, 0, 0) as) bs =
   point_sub (foldl point_add (0, 0, 0) bs) (foldl point_add (0, 0, 0) as)"
  for as :: "('f::ab_group_add) point3d list"
proof -
  obtain a b c where a: "foldl point_add (0, 0, 0) as = (a, b, c)"
    by (cases "foldl point_add (0::'f, 0::'f, 0::'f) as")
  obtain x y z where b: "foldl point_add (0, 0, 0) bs = (x, y, z)"
    by (cases "foldl point_add (0::'f, 0::'f, 0::'f) bs")
  show ?thesis
    by (subst foldl_point_add, subst foldl_point_sub) (simp add: a b)
qed

text \<open>
  Section 4.4 words the result of the relative translation (C4) as the sum of the second
  chain's translations minus the sum of the first chain's.  The value returned is not
  always that one.  With floats, for the stacks A' and B' of \<open>rounding_heap\<close>
  the function returns \<open>(0, 0, 0)\<close>: it computes \<open>0 - (-16777216) = 16777216\<close>, then
  \<open>16777216 + 1\<close>, which rounds to \<open>16777216\<close>, then \<open>16777216 + (-16777216) = 0\<close>.  The
  sum of B' is \<open>1 + (-16777216) = -16777215\<close>, a float, and minus the sum of A' this is
  \<open>(1, 0, 0)\<close>, in whichever order each sum is taken and also in exact arithmetic.  For
  the stacks A and B the function returns \<open>(1, 0, 0)\<close>, the exact difference, where the
  float sum of B is \<open>16777216\<close> and the difference of the float sums is \<open>(0, 0, 0)\<close>.
\<close>

theorem relative_translation_counterexample:
  "path rounding_heap (Some 4) [4, 0] \<and> path rounding_heap (Some 6) [6, 5, 0] \<and>
   chain_nodes rounding_heap [4, 0] =
     [(4, OP_TRANSLATE (Float (- 16777216), Float 0, Float 0))] @ (0, OP_LOAD_IDENTITY) # [] \<and>
   chain_nodes rounding_heap [6, 5, 0] =
     [(6, OP_TRANSLATE (Float (- 16777216), Float 0, Float 0)),
      (5, OP_TRANSLATE (Float 1, Float 0, Float 0))] @ (0, OP_LOAD_IDENTITY) # [] \<and>
   cogl_matrix_entry_calculate_translation rounding_heap (Some 4) (Some 6) =
     Some (Some (Float 0, Float 0, Float 0)) \<and>
   sum_minus_sum
     [(4, OP_TRANSLATE (Float (- 16777216), Float 0, Float 0)) ::
        addr \<times> (c_float, int, letter list) matrix_op]
     [(6, OP_TRANSLATE (Float (- 16777216), Float 0, Float 0)),
      (5, OP_TRANSLATE (Float 1, Float 0, Float 0))] =
     (Float 1, Float 0, Float 0) \<and>
   sum_minus_sum
     [(4, OP_TRANSLATE (Float (- 16777216), Float 0, Float 0)) ::
        addr \<times> (c_float, int, letter list) matrix_op]
     [(5, OP_TRANSLATE (Float 1, Float 0, Float 0)),
      (6, OP_TRANSLATE (Float (- 16777216), Float 0, Float 0))] =
     (Float 1, Float 0, Float 0) \<and>
   sum_minus_sum
     [(4, OP_TRANSLATE (- 16777216, 0, 0)) :: addr \<times> (int, int, letter list) matrix_op]
     [(6, OP_TRANSLATE (- 16777216, 0, 0)), (5, OP_TRANSLATE (1, 0, 0))] =
     (1, 0, 0) \<and>
   cogl_matrix_entry_calculate_translation rounding_heap (Some 4) (Some 6) \<noteq>
     Some (Some (sum_minus_sum (take 1 (chain_nodes rounding_heap [4, 0]))
                               (take 2 (chain_nodes rounding_heap [6, 5, 0])))) \<and>
   path rounding_heap (Some 1) [1, 0] \<and> path rounding_heap (Some 3) [3, 2, 0] \<and>
   chain_nodes rounding_heap [1, 0] =
     [(1, OP_TRANSLATE (Float 16777216, Float 0, Float 0))] @ (0, OP_LOAD_IDENTITY) # [] \<and>
   chain_nodes rounding_heap [3, 2, 0] =
     [(3, OP_TRANSLATE (Float 1, Float 0, Float 0)),
      (2, OP_TRANSLATE (Float 16777216, Float 0, Float 0))] @ (0, OP_LOAD_IDENTITY) # [] \<and>
   cogl_matrix_entry_calculate_translation rounding_heap (Some 1) (Some 3) =
     Some (Some (Float 1, Float 0, Float 0)) \<and>
   sum_minus_sum
     [(1, OP_TRANSLATE (Float 16777216, Float 0, Float 0)) ::
        addr \<times> (c_float, int, letter list) matrix_op]
     [(3, OP_TRANSLATE (Float 1, Float 0, Float 0)),
      (2, OP_TRANSLATE (Float 16777216, Float 0, Float 0))] =
     (Float 0, Float 0, Float 0)"
  by code_simp

text \<open>
  C4.  Let the nodes of the two chains, without their Save entries, be \<open>N0 @ c # R\<close> and
  \<open>N1 @ c # R\<close>: \<open>c\<close> is a common ancestor and \<open>N0\<close>, \<open>N1\<close> are the nodes below it, the
  queried node first.  (1) When \<open>N0\<close> and \<open>N1\<close> hold only translations and \<open>c\<close> is the
  deepest common ancestor, the function returns TRUE with the value of one running
  accumulation: starting from zero, the translations of \<open>N0\<close> are subtracted one by one,
  from the one next to \<open>c\<close> to the queried node, and then the translations of \<open>N1\<close> are
  added one by one in the same order, every step in the arithmetic of the numbers.  In
  a commutative group this value is the sum of the second minus the sum of the first
  (\<open>translation_fold_group\<close>); in float arithmetic, where every step rounds, it need not
  be.  (2) When the two walks end at different nodes (the lists have no common first
  element), the function returns FALSE.  (3) When \<open>N0\<close> and \<open>N1\<close> share no node and one
  of them holds a node that is not a translation, the function returns FALSE.  In no
  case does it crash.
\<close>

theorem relative_translation:
  assumes "path h entry0 xs0" and "path h entry1 xs1"
  shows "(chain_nodes h xs0 = N0 @ c # R \<and> chain_nodes h xs1 = N1 @ c # R \<and>
          (\<forall>n\<in>set (N0 @ N1). is_translate (snd n)) \<and>
          (N0 = [] \<or> N1 = [] \<or> fst (last N0) \<noteq> fst (last N1)) \<longrightarrow>
          cogl_matrix_entry_calculate_translation h entry0 entry1 =
            Some (Some (foldl point_add
                          (foldl point_sub (0, 0, 0) (node_translations (rev N0)))
                          (node_translations (rev N1))))) \<and>
         (chain_nodes h xs0 \<noteq> [] \<and> chain_nodes h xs1 \<noteq> [] \<and>
          last (walk_nodes (chain_nodes h xs0)) \<noteq> last (walk_nodes (chain_nodes h xs1)) \<longrightarrow>
          cogl_matrix_entry_calculate_translation h entry0 entry1 = Some None) \<and>
         (chain_nodes h xs0 = N0 @ c # R \<and> chain_nodes h xs1 = N1 @ c # R \<and>
          fst ` set N0 \<inter> fst ` set N1 = {} \<and>
          (\<exists>n\<in>set (N0 @ N1). \<not> is_translate (snd n)) \<longrightarrow>
          cogl_matrix_entry_calculate_translation h entry0 entry1 = Some None)"
proof (intro conjI impI)
  assume "chain_nodes h xs0 = N0 @ c # R \<and> chain_nodes h xs1 = N1 @ c # R \<and>
          (\<forall>n\<in>set (N0 @ N1). is_translate (snd n)) \<and>
          (N0 = [] \<or> N1 = [] \<or> fst (last N0) \<noteq> fst (last N1))"
  then show "cogl_matrix_entry_calculate_translation h entry0 entry1 =
            Some (Some (foldl point_add
                          (foldl point_sub (0, 0, 0) (node_translations (rev N0)))
                          (node_translations (rev N1))))"
    by (intro calculate_translation_success [OF assms]) simp_all
next
  assume "chain_nodes h xs0 \<noteq> [] \<and> chain_nodes h xs1 \<noteq> [] \<and>
          last (walk_nodes (chain_nodes h xs0)) \<noteq> last (walk_nodes (chain_nodes h xs1))"
  then show "cogl_matrix_entry_calculate_translation h entry0 entry1 = Some None"
    by (intro calculate_translation_no_common_head [OF assms]) simp_all
next
  assume "chain_nodes h xs0 = N0 @ c # R \<and> chain_nodes h xs1 = N1 @ c # R \<and>
          fst ` set N0 \<inter> fst ` set N1 = {} \<and>
          (\<exists>n\<in>set (N0 @ N1). \<not> is_translate (snd n))"
  then show "cogl_matrix_entry_calculate_translation h entry0 entry1 = Some None"
    by (intro calculate_translation_interrupted [OF assms, of N0 c R N1]) simp_all
qed

theorem relative_translation_witness:
  "path translation_heap (Some 1) [1, 0] \<and> path translation_heap (Some 3) [3, 2, 0] \<and>
   path translation_heap (Some 5) [5, 4, 0] \<and>
   chain_nodes translation_heap [1, 0] = [(1, OP_TRANSLATE (5, 0, 0))] @ (0, OP_LOAD_IDENTITY) # [] \<and>
   chain_nodes translation_heap [3, 2, 0] =
     [(3, OP_TRANSLATE (2, 0, 0)), (2, OP_TRANSLATE (5, 0, 0))] @ (0, OP_LOAD_IDENTITY) # [] \<and>
   cogl_matrix_entry_calculate_translation translation_heap (Some 1) (Some 3) =
     Some (Some (2, 0, 0)) \<and>
   cogl_matrix_entry_calculate_translation translation_heap (Some 5) (Some 3) = Some None"
  using relative_translation [where h = translation_heap and ?entry0.0 = "Some 1"
      and ?xs0.0 = "[1, 0]" and ?entry1.0 = "Some 3" and ?xs1.0 = "[3, 2, 0]"
      and ?N0.0 = "[(1, OP_TRANSLATE (5, 0, 0))]"
      and ?N1.0 = "[(3, OP_TRANSLATE (2, 0, 0)), (2, OP_TRANSLATE (5, 0, 0))]"
      and c = "(0, OP_LOAD_IDENTITY)" and R = "[]"]
    relative_translation [where h = translation_heap and ?entry0.0 = "Some 5"
      and ?xs0.0 = "[5, 4, 0]" and ?entry1.0 = "Some 3" and ?xs1.0 = "[3, 2, 0]"
      and ?N0.0 = "[(5, OP_TRANSLATE (5, 0, 0)), (4, OP_ROTATE 90 (0, 0, 1))]"
      and ?N1.0 = "[(3, OP_TRANSLATE (2, 0, 0)), (2, OP_TRANSLATE (5, 0, 0))]"
      and c = "(0, OP_LOAD_IDENTITY)" and R = "[]"]
  by (simp add: translation_heap_def chain_nodes_def map_filter_simps node_translations_def)

end
